theory Spec2Isabelle
  imports Main "HOL-Library.Multiset" "HOL-Library.Log_Nat"
begin

section \<open>Numbers of the host language\<close>

text \<open>
  Every number of the sources is an ECMAScript Number: an IEEE 754 binary64 value.
  A finite value is represented by the rational it denotes; \<open>NaN\<close> and the two
  infinities are separate constructors. The two zeros are not distinguished.
\<close>

datatype jsnum = NaN | NInf | Fin rat | PInf

text \<open>The relational operators; every comparison with \<open>NaN\<close> is false.\<close>

fun js_lt :: "jsnum \<Rightarrow> jsnum \<Rightarrow> bool" where
  "js_lt NaN y = False"
| "js_lt x NaN = False"
| "js_lt x NInf = False"
| "js_lt NInf y = True"
| "js_lt PInf y = False"
| "js_lt (Fin a) PInf = True"
| "js_lt (Fin a) (Fin b) = (a < b)"

definition js_gt :: "jsnum \<Rightarrow> jsnum \<Rightarrow> bool" where
  "js_gt x y = js_lt y x"

definition js_le :: "jsnum \<Rightarrow> jsnum \<Rightarrow> bool" where
  "js_le x y = (x \<noteq> NaN \<and> y \<noteq> NaN \<and> \<not> js_lt y x)"

definition js_ge :: "jsnum \<Rightarrow> jsnum \<Rightarrow> bool" where
  "js_ge x y = js_le y x"

text \<open>\<open>isNaN\<close>, and the truthiness of a number in a condition: neither zero nor \<open>NaN\<close>.\<close>

definition isNaN :: "jsnum \<Rightarrow> bool" where
  "isNaN x = (x = NaN)"

definition truthy :: "jsnum \<Rightarrow> bool" where
  "truthy x = (x \<noteq> NaN \<and> x \<noteq> Fin 0)"

subsection \<open>Rounding to binary64\<close>

text \<open>
  The result of an arithmetic operation on finite values is the exact result rounded to
  the nearest binary64 value, ties to the even significand: 53 significant bits, the
  least exponent \<open>-1074\<close>, and overflow to an infinity from \<open>2 ^ 1024\<close> on.
  \<open>ilog2 a\<close> is the integer part of the binary logarithm of a positive rational.
\<close>

definition round_half_even :: "rat \<Rightarrow> int" where
  "round_half_even x =
     (let f = \<lfloor>x\<rfloor>; d = x - of_int f
      in if d < 1 / 2 then f else if 1 / 2 < d then f + 1 else if even f then f else f + 1)"

definition ilog2 :: "rat \<Rightarrow> int" where
  "ilog2 a =
     (let d = bitlen (fst (quotient_of a)) - bitlen (snd (quotient_of a))
      in if 2 powi d \<le> a then d else d - 1)"

definition fl_round :: "rat \<Rightarrow> rat" where
  "fl_round a =
     (let e = max (ilog2 a - 52) (- 1074)
      in of_int (round_half_even (a / 2 powi e)) * 2 powi e)"

definition fl :: "rat \<Rightarrow> jsnum" where
  "fl r =
     (if r = 0 then Fin 0
      else let v = fl_round \<bar>r\<bar>
           in if 2 ^ 1024 \<le> v then (if 0 < r then PInf else NInf)
              else Fin (if 0 < r then v else - v))"

subsection \<open>Arithmetic\<close>

fun js_neg :: "jsnum \<Rightarrow> jsnum" where
  "js_neg NaN = NaN"
| "js_neg NInf = PInf"
| "js_neg PInf = NInf"
| "js_neg (Fin a) = Fin (- a)"

fun js_add :: "jsnum \<Rightarrow> jsnum \<Rightarrow> jsnum" where
  "js_add NaN y = NaN"
| "js_add x NaN = NaN"
| "js_add (Fin a) (Fin b) = fl (a + b)"
| "js_add PInf NInf = NaN"
| "js_add NInf PInf = NaN"
| "js_add (Fin a) y = y"
| "js_add x y = x"

definition js_sub :: "jsnum \<Rightarrow> jsnum \<Rightarrow> jsnum" where
  "js_sub x y = js_add x (js_neg y)"

fun js_sgn :: "jsnum \<Rightarrow> int" where
  "js_sgn NaN = 0"
| "js_sgn NInf = - 1"
| "js_sgn PInf = 1"
| "js_sgn (Fin a) = (if a < 0 then - 1 else if a = 0 then 0 else 1)"

definition js_inf :: "int \<Rightarrow> jsnum" where
  "js_inf s = (if s = 0 then NaN else if 0 < s then PInf else NInf)"

fun js_mul :: "jsnum \<Rightarrow> jsnum \<Rightarrow> jsnum" where
  "js_mul NaN y = NaN"
| "js_mul x NaN = NaN"
| "js_mul (Fin a) (Fin b) = fl (a * b)"
| "js_mul x y = js_inf (js_sgn x * js_sgn y)"

fun js_div :: "jsnum \<Rightarrow> jsnum \<Rightarrow> jsnum" where
  "js_div NaN y = NaN"
| "js_div x NaN = NaN"
| "js_div (Fin a) (Fin b) = (if b = 0 then js_inf (js_sgn (Fin a)) else fl (a / b))"
| "js_div (Fin a) y = Fin 0"
| "js_div x (Fin b) = js_inf (js_sgn x * (if b < 0 then - 1 else 1))"
| "js_div x y = NaN"

text \<open>\<open>Number.isInteger\<close>: a finite value without fractional part.\<close>

definition isInteger :: "jsnum \<Rightarrow> bool" where
  "isInteger n = (case n of Fin r \<Rightarrow> of_int \<lfloor>r\<rfloor> = r | _ \<Rightarrow> False)"

subsection \<open>\<open>Array.prototype.sort\<close> with a comparator\<close>

text \<open>
  The sort is stable, and places \<open>x\<close> before \<open>y\<close> when the comparator is negative on
  \<open>(x, y)\<close>. For a comparator that is a consistent ordering this is insertion of each
  element, from the right, before the first element it does not follow.
\<close>

fun insert_cmp :: "('a \<Rightarrow> 'a \<Rightarrow> int) \<Rightarrow> 'a \<Rightarrow> 'a list \<Rightarrow> 'a list" where
  "insert_cmp cmp x [] = [x]"
| "insert_cmp cmp x (y # ys) = (if cmp x y \<le> 0 then x # y # ys else y # insert_cmp cmp x ys)"

definition Array_sort :: "('a \<Rightarrow> 'a \<Rightarrow> int) \<Rightarrow> 'a list \<Rightarrow> 'a list" where
  "Array_sort cmp xs = foldr (insert_cmp cmp) xs []"

section \<open>Problem 1: three sums to \<open>n\<close> (\<open>problem1/index.js\<close>)\<close>

text \<open>
  The \<open>for\<close> loop of \<open>sum_to_n_a\<close>, from the loop variable \<open>i\<close> and the accumulator on.
  A run that never leaves the loop has the value \<open>None\<close>.
\<close>

partial_function (option) sum_loop :: "jsnum \<Rightarrow> jsnum \<Rightarrow> jsnum \<Rightarrow> jsnum option" where
  "sum_loop n i sum_v =
     (if js_le i n then sum_loop n (js_add i (Fin 1)) (js_add sum_v i) else Some sum_v)"

definition sum_to_n_a :: "jsnum \<Rightarrow> jsnum option" where
  "sum_to_n_a n =
     (if js_lt n (Fin 1) \<or> \<not> isInteger n then Some (Fin 0)
      else sum_loop n (Fin 1) (Fin 0))"

definition sum_to_n_b :: "jsnum \<Rightarrow> jsnum" where
  "sum_to_n_b n =
     (if js_lt n (Fin 1) \<or> \<not> isInteger n then Fin 0
      else js_div (js_mul n (js_add n (Fin 1))) (Fin 2))"

text \<open>
  \<open>sum_to_n_c\<close> calls itself once for each number from \<open>n\<close> down to 1, and every call
  that has not returned holds a frame of the call stack. The host bounds the stack, and
  a call that finds no room throws \<open>RangeError\<close>; the language leaves the bound to the
  host. \<open>frames\<close> is the number of calls of \<open>sum_to_n_c\<close> that the stack has room for
  when the function is called.
\<close>

datatype error = RangeError

fun sum_to_n_c :: "nat \<Rightarrow> jsnum \<Rightarrow> error + jsnum" where
  "sum_to_n_c 0 n = Inl RangeError"
| "sum_to_n_c (Suc frames) n =
     (if js_lt n (Fin 1) \<or> \<not> isInteger n then Inr (Fin 0)
      else if n = Fin 1 then Inr (Fin 1)
      else case sum_to_n_c frames (js_sub n (Fin 1)) of
             Inl e \<Rightarrow> Inl e
           | Inr r \<Rightarrow> Inr (js_add n r))"
section \<open>Wallet balances by blockchain priority (\<open>WalletPage\<close>)\<close>

record WalletBalance =
  currency_wb :: string
  amount :: jsnum
  blockchain :: string

definition getPriority :: "string \<Rightarrow> int" where
  "getPriority b =
     (if b = ''Osmosis'' then 100
      else if b = ''Ethereum'' then 50
      else if b = ''Arbitrum'' then 30
      else if b = ''Zilliqa'' then 20
      else if b = ''Neo'' then 20
      else - 99)"

definition sortedBalances :: "WalletBalance list \<Rightarrow> WalletBalance list" where
  "sortedBalances balances =
     Array_sort
       (\<lambda>lhs rhs.
          let leftPriority = getPriority (blockchain lhs);
              rightPriority = getPriority (blockchain rhs)
          in rightPriority - leftPriority)
       (filter
          (\<lambda>balance.
             let balancePriority = getPriority (blockchain balance)
             in balancePriority > - 99 \<and> js_gt (amount balance) (Fin 0))
          balances)"

section \<open>The token catalog (\<open>processTokenData\<close>)\<close>

record RawTokenData =
  currency :: string
  price :: jsnum

record Token = RawTokenData +
  icon :: string

text \<open>
  A \<open>Map\<close> keeps its entries in insertion order; \<open>set\<close> on a key that is present replaces
  the value where the entry stands, and on a new key appends the entry.
\<close>

fun Map_set :: "'k \<Rightarrow> 'v \<Rightarrow> ('k \<times> 'v) list \<Rightarrow> ('k \<times> 'v) list" where
  "Map_set k v [] = [(k, v)]"
| "Map_set k v (e # m) = (if fst e = k then (k, v) # m else e # Map_set k v m)"

definition Map_values :: "('k \<times> 'v) list \<Rightarrow> 'v list" where
  "Map_values m = map snd m"

definition icon_url :: "string \<Rightarrow> string" where
  "icon_url c =
     ''https://raw.githubusercontent.com/Switcheo/token-icons/main/tokens/'' @ c @ ''.svg''"

text \<open>
  \<open>String.prototype.localeCompare\<close> is the collation of the host; it is a parameter
  here. The body of the \<open>forEach\<close> is \<open>add_token\<close>.
\<close>

definition add_token :: "(string \<times> Token) list \<Rightarrow> RawTokenData \<Rightarrow> (string \<times> Token) list" where
  "add_token tokenMap item =
     (if truthy (price item) \<and> js_gt (price item) (Fin 0)
      then Map_set (currency item)
             \<lparr>currency = currency item, price = price item, icon = icon_url (currency item)\<rparr>
             tokenMap
      else tokenMap)"

definition processTokenData :: "(string \<Rightarrow> string \<Rightarrow> int) \<Rightarrow> RawTokenData list \<Rightarrow> Token list" where
  "processTokenData localeCompare data =
     (let tokenMap = foldl add_token [] data
      in Array_sort (\<lambda>a b. localeCompare (currency a) (currency b)) (Map_values tokenMap))"

text \<open>
  The token made of a record, and the invariant of the map while it is built: its keys
  are distinct, and each entry is filed under the currency of its token.
\<close>

definition token_of :: "RawTokenData \<Rightarrow> Token" where
  "token_of item = \<lparr>currency = currency item, price = price item, icon = icon_url (currency item)\<rparr>"

definition keyed :: "(string \<times> Token) list \<Rightarrow> bool" where
  "keyed m = (distinct (map fst m) \<and> (\<forall>e \<in> set m. currency (snd e) = fst e))"

text \<open>
  The language asks of \<open>localeCompare\<close> that it be a consistent comparator: the strings
  fall into classes of strings that compare equal, and the classes are ordered. It does
  not ask that only equal strings compare equal, and the collation of the host gives no
  weight to some characters, control characters among them: two strings that differ in
  these alone compare equal.
\<close>

definition consistent :: "(string \<Rightarrow> string \<Rightarrow> int) \<Rightarrow> bool" where
  "consistent cmp =
     ((\<forall>a b. (cmp a b < 0) = (0 < cmp b a)) \<and>
      (\<forall>a b c. cmp a b \<le> 0 \<and> cmp b c \<le> 0 \<longrightarrow> cmp a c \<le> 0))"

text \<open>
  Two comparators of this kind, used to run the catalog: comparison by character code,
  and the same after the control characters without weight have been dropped.
\<close>

fun code_compare :: "string \<Rightarrow> string \<Rightarrow> int" where
  "code_compare [] [] = 0"
| "code_compare [] (y # ys) = - 1"
| "code_compare (x # xs) [] = 1"
| "code_compare (x # xs) (y # ys) =
     (if (of_char x :: nat) < of_char y then - 1
      else if (of_char y :: nat) < of_char x then 1
      else code_compare xs ys)"

definition ignorable :: "char \<Rightarrow> bool" where
  "ignorable c =
     (let n = (of_char c :: nat)
      in n < 0x09 \<or> (0x0D < n \<and> n < 0x20) \<or> (0x7F \<le> n \<and> n \<le> 0x9F \<and> n \<noteq> 0x85))"

definition weighted_compare :: "string \<Rightarrow> string \<Rightarrow> int" where
  "weighted_compare a b =
     code_compare (filter (\<lambda>c. \<not> ignorable c) a) (filter (\<lambda>c. \<not> ignorable c) b)"

section \<open>Reading and printing numbers\<close>

text \<open>
  Strings are lists of characters, the code units up to \<open>U+00FF\<close>. The white space that
  \<open>Number\<close> and \<open>parseFloat\<close> skip is, among these, the tab, the line feed, the vertical
  tab, the form feed, the carriage return, the space and the no-break space \<open>U+00A0\<close>.
  \<open>StrDecimalLiteral\<close> reads the longest prefix that is a decimal literal
  (a sign, then \<open>Infinity\<close> or digits with an optional fraction and exponent) and
  returns its value with the rest of the string.
\<close>

definition is_space :: "char \<Rightarrow> bool" where
  "is_space c =
     (c \<in> set [CHR 0x09, CHR 0x0A, CHR 0x0B, CHR 0x0C, CHR 0x0D, CHR '' '', CHR 0xA0])"

definition is_digit :: "char \<Rightarrow> bool" where
  "is_digit c = (c \<in> set ''0123456789'')"

definition digit_val :: "char \<Rightarrow> int" where
  "digit_val c =
     (if is_digit c then of_char c - 48
      else if c \<in> set ''abcdef'' then of_char c - 87
      else of_char c - 55)"

definition digits_val :: "int \<Rightarrow> string \<Rightarrow> int" where
  "digits_val base ds = foldl (\<lambda>n c. base * n + digit_val c) 0 ds"

definition ExponentPart :: "string \<Rightarrow> int \<times> string" where
  "ExponentPart s =
     (case s of
        c # r \<Rightarrow>
          if c = CHR ''e'' \<or> c = CHR ''E'' then
            (let (sg, r') = (case r of
                               d # t \<Rightarrow> if d = CHR ''-'' then (- 1, t)
                                        else if d = CHR ''+'' then (1, t) else (1, r)
                             | [] \<Rightarrow> (1, r));
                 ds = takeWhile is_digit r'
             in if ds = [] then (0, s)
                else (sg * digits_val 10 ds, dropWhile is_digit r'))
          else (0, s)
      | [] \<Rightarrow> (0, s))"

definition StrUnsignedDecimalLiteral :: "string \<Rightarrow> (jsnum \<times> string) option" where
  "StrUnsignedDecimalLiteral s =
     (if take 8 s = ''Infinity'' then Some (PInf, drop 8 s)
      else
        let ip = takeWhile is_digit s;
            r1 = dropWhile is_digit s;
            (fp, r2) = (case r1 of
                          c # r \<Rightarrow> if c = CHR ''.'' then (takeWhile is_digit r, dropWhile is_digit r)
                                   else ([], r1)
                        | [] \<Rightarrow> ([], r1))
        in if ip = [] \<and> fp = [] then None
           else let (ex, r3) = ExponentPart r2
                in Some (fl (of_int (digits_val 10 (ip @ fp)) * 10 powi (ex - int (length fp))), r3))"

definition StrDecimalLiteral :: "string \<Rightarrow> (jsnum \<times> string) option" where
  "StrDecimalLiteral s =
     (case s of
        c # r \<Rightarrow>
          if c = CHR ''+'' then StrUnsignedDecimalLiteral r
          else if c = CHR ''-'' then map_option (\<lambda>(v, t). (js_neg v, t)) (StrUnsignedDecimalLiteral r)
          else StrUnsignedDecimalLiteral s
      | [] \<Rightarrow> None)"

text \<open>\<open>parseFloat\<close>: leading white space is skipped, what follows the literal is ignored.\<close>

definition parseFloat :: "string \<Rightarrow> jsnum" where
  "parseFloat s =
     (case StrDecimalLiteral (dropWhile is_space s) of
        Some (v, t) \<Rightarrow> v
      | None \<Rightarrow> NaN)"

text \<open>
  \<open>Number\<close> applied to a string: white space on both sides is trimmed, the empty string
  is 0, and the whole rest must be one literal, decimal or with a radix prefix.
\<close>

definition trim :: "string \<Rightarrow> string" where
  "trim s = rev (dropWhile is_space (rev (dropWhile is_space s)))"

definition radix_literal :: "int \<Rightarrow> string \<Rightarrow> string \<Rightarrow> jsnum" where
  "radix_literal base allowed ds =
     (if ds \<noteq> [] \<and> (\<forall>c \<in> set ds. c \<in> set allowed) then fl (of_int (digits_val base ds)) else NaN)"

definition Number :: "string \<Rightarrow> jsnum" where
  "Number s =
     (let t = trim s
      in if t = [] then Fin 0
         else if take 2 t = ''0x'' \<or> take 2 t = ''0X''
           then radix_literal 16 ''0123456789abcdefABCDEF'' (drop 2 t)
         else if take 2 t = ''0o'' \<or> take 2 t = ''0O''
           then radix_literal 8 ''01234567'' (drop 2 t)
         else if take 2 t = ''0b'' \<or> take 2 t = ''0B''
           then radix_literal 2 ''01'' (drop 2 t)
         else (case StrDecimalLiteral t of
                 Some (v, r) \<Rightarrow> if r = [] then v else NaN
               | None \<Rightarrow> NaN))"

text \<open>The decimal digits of a non-negative integer.\<close>

function dec_digits :: "int \<Rightarrow> string" where
  "dec_digits n =
     (if n < 10 then [''0123456789'' ! nat n]
      else dec_digits (n div 10) @ [''0123456789'' ! nat (n mod 10)])"
  by pat_completeness auto
termination
  by (relation "measure nat") auto

declare dec_digits.simps [simp del]

text \<open>
  \<open>Number.prototype.toString\<close> for a finite value from \<open>10 ^ 21\<close> on, the only range
  where \<open>toFixed\<close> calls it: the shortest digit string \<open>s\<close>, of some length \<open>k\<close>, with
  \<open>s * 10 ^ (n - k)\<close> rounding to the value, in exponential notation. The value lies
  between \<open>10 ^ (n - 1)\<close> and \<open>10 ^ n\<close>; the candidates of length \<open>k\<close> are the two
  neighbours of the value, the upper one being \<open>10 ^ n\<close> itself when the digits run over.
\<close>

definition shortest_digits :: "rat \<Rightarrow> nat \<Rightarrow> nat \<Rightarrow> (int \<times> nat) option" where
  "shortest_digits x n k =
     (let lo = \<lfloor>x / 10 ^ (n - k)\<rfloor>;
          c1 = (lo, n);
          c2 = (if lo + 1 < 10 ^ k then (lo + 1, n) else (10 ^ (k - 1), n + 1));
          val = (\<lambda>(s, m). of_int s * 10 ^ (m - k));
          ok = (\<lambda>c. fl (val c) = Fin x);
          d = (\<lambda>c. \<bar>val c - x\<bar>)
      in if ok c1 \<and> ok c2
         then (if d c1 < d c2 \<or> (d c1 = d c2 \<and> even lo) then Some c1 else Some c2)
         else if ok c1 then Some c1
         else if ok c2 then Some c2
         else None)"

definition toString_large :: "rat \<Rightarrow> string" where
  "toString_large x =
     (let n = length (dec_digits \<lfloor>x\<rfloor>);
          (s, m) = (case List.find (\<lambda>k. shortest_digits x n k \<noteq> None) [1..<18] of
                      Some k \<Rightarrow> the (shortest_digits x n k)
                    | None \<Rightarrow> (\<lfloor>x / 10 ^ (n - 17)\<rfloor>, n));
          ds = dec_digits s
      in (if length ds = 1 then ds else take 1 ds @ ''.'' @ drop 1 ds)
           @ ''e+'' @ dec_digits (int m - 1))"

text \<open>
  \<open>Number.prototype.toFixed\<close> with 6 fraction digits: the integer \<open>n\<close> nearest to
  \<open>x * 10 ^ 6\<close>, the larger one of two, printed with a point before its last 6 digits.
\<close>

definition toFixed6 :: "jsnum \<Rightarrow> string" where
  "toFixed6 x =
     (case x of
        NaN \<Rightarrow> ''NaN''
      | PInf \<Rightarrow> ''Infinity''
      | NInf \<Rightarrow> ''-Infinity''
      | Fin r \<Rightarrow>
          (if r < 0 then ''-'' else '''') @
          (if 10 ^ 21 \<le> \<bar>r\<bar> then toString_large \<bar>r\<bar>
           else
             let n = \<lfloor>\<bar>r\<bar> * 10 ^ 6 + 1 / 2\<rfloor>;
                 m = dec_digits n;
                 m = (if length m \<le> 6 then replicate (7 - length m) CHR ''0'' @ m else m)
             in take (length m - 6) m @ ''.'' @ drop (length m - 6) m))"


section \<open>The swap form (\<open>App\<close>)\<close>

text \<open>The state variables of the component, one field for each \<open>useState\<close>.\<close>

record App =
  tokens :: "Token list"
  fromToken :: "Token option"
  toToken :: "Token option"
  fromAmount :: string
  toAmount :: string
  isFromModalOpen :: bool
  isToModalOpen :: bool
  searchTerm :: string
  error :: string
  isLoading :: bool
  isSwapping :: bool

definition initial :: App where
  "initial =
     \<lparr>tokens = [], fromToken = None, toToken = None, fromAmount = '''', toAmount = '''',
      isFromModalOpen = False, isToModalOpen = False, searchTerm = '''', error = '''',
      isLoading = True, isSwapping = False\<rparr>"

definition MOCK_BALANCE :: jsnum where
  "MOCK_BALANCE = Fin 10"

subsection \<open>The effects\<close>

text \<open>The outcome of the fetch: the catalog with its two default tokens, or the error.\<close>

definition fetchPrices_resolved :: "(string \<Rightarrow> string \<Rightarrow> int) \<Rightarrow> RawTokenData list \<Rightarrow> App \<Rightarrow> App" where
  "fetchPrices_resolved localeCompare data s =
     (let processedTokens = processTokenData localeCompare data;
          defaultFromToken = List.find (\<lambda>token. currency token = ''ETH'') processedTokens;
          defaultToToken = List.find (\<lambda>token. currency token = ''USDC'') processedTokens
      in s\<lparr>tokens := processedTokens, fromToken := defaultFromToken, toToken := defaultToToken,
           isLoading := False\<rparr>)"

definition fetchPrices_failed :: "App \<Rightarrow> App" where
  "fetchPrices_failed s =
     s\<lparr>error := ''Failed to load token prices. Please refresh the page to try again.'',
       isLoading := False\<rparr>"

text \<open>
  The effect that computes the output amount and validates the balance, with the
  balance it closes over as a parameter.
\<close>

definition insufficient :: "Token \<Rightarrow> string" where
  "insufficient t = ''Insufficient '' @ currency t @ '' balance''"

definition recompute_with :: "jsnum \<Rightarrow> App \<Rightarrow> App" where
  "recompute_with balance s =
     (let fromAmountNum = parseFloat (fromAmount s);
          s1 = s\<lparr>error := ''''\<rparr>;
          s2 = (case fromToken s of
                  Some f \<Rightarrow> if js_gt fromAmountNum balance then s1\<lparr>error := insufficient f\<rparr> else s1
                | None \<Rightarrow> s1)
      in case (fromToken s, toToken s) of
           (Some f, Some t) \<Rightarrow>
             if js_gt fromAmountNum (Fin 0) \<and> truthy (price f) \<and> truthy (price t)
             then let exchangeRate = js_div (price f) (price t);
                      calculatedToAmount = js_mul fromAmountNum exchangeRate
                  in s2\<lparr>toAmount := toFixed6 calculatedToAmount\<rparr>
             else s2\<lparr>toAmount := ''''\<rparr>
         | _ \<Rightarrow> s2\<lparr>toAmount := ''''\<rparr>)"

definition recompute :: "App \<Rightarrow> App" where
  "recompute s = recompute_with MOCK_BALANCE s"

subsection \<open>The handlers\<close>

text \<open>
  A number that is not negative: a finite value from 0 on, or \<open>+Infinity\<close>;
  \<open>NaN\<close> is none.
\<close>

definition nonnegative :: "jsnum \<Rightarrow> bool" where
  "nonnegative x = (case x of Fin r \<Rightarrow> 0 \<le> r | PInf \<Rightarrow> True | _ \<Rightarrow> False)"

definition handleFromAmountChange :: "string \<Rightarrow> App \<Rightarrow> App" where
  "handleFromAmountChange v s =
     (if v = '''' \<or> (js_ge (Number v) (Fin 0) \<and> \<not> isNaN (Number v))
      then s\<lparr>fromAmount := v\<rparr>
      else s)"

definition handleSelectFromToken :: "Token \<Rightarrow> App \<Rightarrow> App" where
  "handleSelectFromToken token s =
     (let s1 = (case toToken s of
                  Some t \<Rightarrow> if currency t = currency token then s\<lparr>toToken := fromToken s\<rparr> else s
                | None \<Rightarrow> s)
      in s1\<lparr>fromToken := Some token, isFromModalOpen := False, searchTerm := ''''\<rparr>)"

definition handleSelectToToken :: "Token \<Rightarrow> App \<Rightarrow> App" where
  "handleSelectToToken token s =
     (let s1 = (case fromToken s of
                  Some f \<Rightarrow> if currency f = currency token then s\<lparr>fromToken := toToken s\<rparr> else s
                | None \<Rightarrow> s)
      in s1\<lparr>toToken := Some token, isToModalOpen := False, searchTerm := ''''\<rparr>)"

definition handleSwapTokens :: "App \<Rightarrow> App" where
  "handleSwapTokens s =
     (if isSwapping s then s
      else s\<lparr>fromToken := toToken s, toToken := fromToken s, fromAmount := toAmount s\<rparr>)"

text \<open>\<open>handleSwapClick\<close> and the callback it hands to \<open>setTimeout\<close>.\<close>

definition handleSwapClick :: "App \<Rightarrow> App" where
  "handleSwapClick s = s\<lparr>isSwapping := True\<rparr>"

definition swap_timeout :: "App \<Rightarrow> App" where
  "swap_timeout s = s\<lparr>fromAmount := '''', toAmount := '''', isSwapping := False\<rparr>"

definition isButtonDisabled :: "App \<Rightarrow> bool" where
  "isButtonDisabled s =
     (fromAmount s = '''' \<or> js_le (parseFloat (fromAmount s)) (Fin 0) \<or> error s \<noteq> '''' \<or> isSwapping s)"

subsection \<open>Events\<close>

text \<open>
  An event is the outcome of the fetch, a call of a handler or of a setter that the
  page passes to a child, a click on the swap button, or the timer. The swap button
  carries \<open>disabled={isButtonDisabled}\<close>, so a click reaches \<open>handleSwapClick\<close> only while
  the button is enabled; the timer is pending exactly while \<open>isSwapping\<close> holds. The
  handlers of the amount and of the tokens are applied whatever the page offers at the
  moment, which the page restricts further. After the event the effect runs if one of
  its dependencies \<open>fromAmount\<close>, \<open>fromToken\<close>, \<open>toToken\<close> has changed; tokens are compared
  by their fields here, which makes no difference to the state the effect leaves.
\<close>

datatype event =
    FetchResolved "RawTokenData list"
  | FetchFailed
  | ChangeFromAmount string
  | SelectFromToken Token
  | SelectToToken Token
  | FlipSides
  | TriggerSwap
  | Settle
  | OpenFromModal
  | OpenToModal
  | CloseFromModal
  | CloseToModal
  | SetSearchTerm string

definition handle :: "(string \<Rightarrow> string \<Rightarrow> int) \<Rightarrow> App \<Rightarrow> event \<Rightarrow> App" where
  "handle localeCompare s e =
     (case e of
        FetchResolved data \<Rightarrow> fetchPrices_resolved localeCompare data s
      | FetchFailed \<Rightarrow> fetchPrices_failed s
      | ChangeFromAmount v \<Rightarrow> handleFromAmountChange v s
      | SelectFromToken t \<Rightarrow> handleSelectFromToken t s
      | SelectToToken t \<Rightarrow> handleSelectToToken t s
      | FlipSides \<Rightarrow> handleSwapTokens s
      | TriggerSwap \<Rightarrow> if isButtonDisabled s then s else handleSwapClick s
      | Settle \<Rightarrow> if isSwapping s then swap_timeout s else s
      | OpenFromModal \<Rightarrow> s\<lparr>isFromModalOpen := True\<rparr>
      | OpenToModal \<Rightarrow> s\<lparr>isToModalOpen := True\<rparr>
      | CloseFromModal \<Rightarrow> s\<lparr>isFromModalOpen := False\<rparr>
      | CloseToModal \<Rightarrow> s\<lparr>isToModalOpen := False\<rparr>
      | SetSearchTerm v \<Rightarrow> s\<lparr>searchTerm := v\<rparr>)"

definition deps :: "App \<Rightarrow> string \<times> Token option \<times> Token option" where
  "deps s = (fromAmount s, fromToken s, toToken s)"

definition step :: "(string \<Rightarrow> string \<Rightarrow> int) \<Rightarrow> App \<Rightarrow> event \<Rightarrow> App" where
  "step localeCompare s e =
     (let s' = handle localeCompare s e
      in if deps s' = deps s then s' else recompute s')"

definition run :: "(string \<Rightarrow> string \<Rightarrow> int) \<Rightarrow> event list \<Rightarrow> App" where
  "run localeCompare es = foldl (step localeCompare) initial es"

text \<open>No currency on both sides: the invariant of the pair of selected tokens.\<close>

definition no_duplicate :: "App \<Rightarrow> bool" where
  "no_duplicate s =
     (case (fromToken s, toToken s) of
        (Some f, Some t) \<Rightarrow> currency f \<noteq> currency t
      | _ \<Rightarrow> True)"


subsection \<open>The tokens that the page offers\<close>

text \<open>
  Each token selector lists tokens of \<open>tokens\<close>, the catalog that the fetch has stored,
  and hands the one clicked to its handler. In a run of the page every selected token
  is therefore one of \<open>tokens\<close> at that moment.
\<close>

fun offered :: "App \<Rightarrow> event \<Rightarrow> bool" where
  "offered s (SelectFromToken t) = (t \<in> set (tokens s))"
| "offered s (SelectToToken t) = (t \<in> set (tokens s))"
| "offered s e = True"

fun page_events :: "(string \<Rightarrow> string \<Rightarrow> int) \<Rightarrow> App \<Rightarrow> event list \<Rightarrow> bool" where
  "page_events localeCompare s [] = True"
| "page_events localeCompare s (e # es) =
     (offered s e \<and> page_events localeCompare (step localeCompare s e) es)"

text \<open>
  The prices of a state: those of the catalog and of the selected tokens are greater
  than 0; and, the weaker property, a side holds no token with a price below 0.
\<close>

definition positive_price :: "Token option \<Rightarrow> bool" where
  "positive_price x = (case x of Some t \<Rightarrow> js_gt (price t) (Fin 0) | None \<Rightarrow> True)"

definition positive_prices :: "App \<Rightarrow> bool" where
  "positive_prices s =
     (list_all (\<lambda>t. js_gt (price t) (Fin 0)) (tokens s)
      \<and> positive_price (fromToken s) \<and> positive_price (toToken s))"

definition no_negative_price :: "Token option \<Rightarrow> bool" where
  "no_negative_price x = (case x of Some t \<Rightarrow> \<not> js_lt (price t) (Fin 0) | None \<Rightarrow> True)"
section \<open>Exact arithmetic on the safe integers\<close>

lemma round_half_even_of_int: "round_half_even (of_int k) = k"
  by (simp add: round_half_even_def)

lemma ilog2_of_int:
  assumes "0 < k"
  shows "ilog2 (of_int k) = bitlen k - 1"
proof -
  have b: "2 ^ nat (bitlen k - 1) \<le> k"
    using bitlen_bounds [OF assms] by simp
  have "1 \<le> bitlen k"
    using assms bitlen_eq_zero_iff [of k] bitlen_nonneg [of k] by linarith
  then have "(2::rat) powi (bitlen k - 1) = 2 ^ nat (bitlen k - 1)"
    by (simp add: power_int_def)
  also have "\<dots> = of_int (2 ^ nat (bitlen k - 1))"
    by simp
  also have "\<dots> \<le> of_int k"
    using b by (simp only: of_int_le_iff)
  finally have le: "(2::rat) powi (bitlen k - 1) \<le> of_int k" .
  have one: "bitlen 1 = 1"
    by code_simp
  show ?thesis
    using le by (simp add: ilog2_def one)
qed

lemma fl_round_of_int_small:
  assumes "0 < k" and "k < 2 ^ 53"
  shows "fl_round (of_int k) = of_int k"
proof -
  have lo: "1 \<le> bitlen k"
    using assms(1) bitlen_eq_zero_iff [of k] bitlen_nonneg [of k] by linarith
  have hi: "bitlen k \<le> 53"
    using assms by (simp add: bitlen_le_iff_power)
  define n where "n = nat (53 - bitlen k)"
  have e: "max (ilog2 (of_int k) - 52) (- 1074) = - int n"
    using lo hi by (simp add: ilog2_of_int [OF assms(1)] n_def)
  have p: "(2::rat) powi (- int n) = 1 / 2 ^ n"
    by (simp add: power_int_minus_divide)
  have q: "(of_int k :: rat) / 2 powi (- int n) = of_int (k * 2 ^ n)"
    by (simp add: p)
  have "(of_int (round_half_even (of_int k / 2 powi (- int n))) :: rat) * 2 powi (- int n)
          = of_int k"
    by (simp only: q round_half_even_of_int) (simp add: p)
  then show ?thesis
    unfolding fl_round_def Let_def e .
qed

lemma fl_round_pow53: "fl_round 9007199254740992 = 9007199254740992"
  by code_simp

lemma fl_round_safe_int:
  assumes "0 < k" and "k \<le> 2 ^ 53"
  shows "fl_round (of_int k) = of_int k"
proof (cases "k = 2 ^ 53")
  case True
  then show ?thesis using fl_round_pow53 by simp
next
  case False
  with assms show ?thesis by (intro fl_round_of_int_small) simp_all
qed

text \<open>Every integer up to \<open>2 ^ 53\<close> is a binary64 value.\<close>

lemma fl_safe_int:
  assumes "0 \<le> k" and "k \<le> 2 ^ 53"
  shows "fl (of_int k) = Fin (of_int k)"
proof (cases "k = 0")
  case True
  then show ?thesis by (simp add: fl_def)
next
  case False
  then have pos: "0 < k" using assms(1) by simp
  have "(of_int k :: rat) < of_int (2 ^ 1024)"
    using assms(2) by (simp only: of_int_less_iff) simp
  then have small: "\<not> (2::rat) ^ 1024 \<le> of_int k"
    by simp
  have abs: "\<bar>of_int k :: rat\<bar> = of_int k"
    using pos by simp
  show ?thesis
    unfolding fl_def Let_def abs fl_round_safe_int [OF pos assms(2)]
    using pos small by simp
qed

lemma fl_safe_nat: "k \<le> 2 ^ 53 \<Longrightarrow> fl (of_nat k) = Fin (of_nat k)"
  using fl_safe_int [of "int k"] by (simp add: le_nat_iff flip: of_nat_le_iff)

text \<open>So is every even integer up to \<open>2 ^ 54\<close>.\<close>

lemma fl_round_pow54: "fl_round 18014398509481984 = 18014398509481984"
  by code_simp

lemma fl_round_even_medium:
  assumes "2 ^ 53 \<le> k" and "k \<le> 2 ^ 54" and "even k"
  shows "fl_round (of_int k) = of_int k"
proof (cases "k = 2 ^ 54")
  case True
  then show ?thesis using fl_round_pow54 by simp
next
  case False
  with assms have lt: "k < 2 ^ 54" by simp
  have pos: "0 < k" using assms(1) by (smt (verit) zero_less_power)
  have "bitlen k \<le> 54"
    using lt by (simp add: bitlen_le_iff_power)
  moreover have "54 \<le> bitlen k"
    using assms(1) by (simp add: bitlen_ge_iff_power)
  ultimately have b: "bitlen k = 54" by simp
  have e: "max (ilog2 (of_int k) - 52) (- 1074) = 1"
    by (simp add: ilog2_of_int [OF pos] b)
  obtain h where h: "k = 2 * h"
    using assms(3) by (elim evenE)
  have "(of_int (round_half_even (of_int k / 2 powi 1)) :: rat) * 2 powi 1 = of_int k"
    by (simp add: h round_half_even_of_int)
  then show ?thesis
    unfolding fl_round_def Let_def e .
qed

lemma fl_even_int:
  assumes "0 \<le> k" and "k \<le> 2 ^ 54" and "even k"
  shows "fl (of_int k) = Fin (of_int k)"
proof (cases "k \<le> 2 ^ 53")
  case True
  with assms(1) show ?thesis by (rule fl_safe_int)
next
  case False
  then have big: "2 ^ 53 \<le> k" by simp
  then have pos: "0 < k" by (smt (verit) zero_less_power)
  have "(of_int k :: rat) < of_int (2 ^ 1024)"
    using assms(2) by (simp only: of_int_less_iff) simp
  then have small: "\<not> (2::rat) ^ 1024 \<le> of_int k"
    by simp
  have abs: "\<bar>of_int k :: rat\<bar> = of_int k"
    using pos by simp
  show ?thesis
    unfolding fl_def Let_def abs fl_round_even_medium [OF big assms(2,3)]
    using pos small by simp
qed

lemma fl_even_nat: "k \<le> 2 ^ 54 \<Longrightarrow> even k \<Longrightarrow> fl (of_nat k) = Fin (of_nat k)"
  using fl_even_int [of "int k"] by (simp add: le_nat_iff flip: of_nat_le_iff)

lemma js_add_nat:
  "a + b \<le> 2 ^ 53 \<Longrightarrow> js_add (Fin (of_nat a)) (Fin (of_nat b)) = Fin (of_nat (a + b))"
  using fl_safe_nat [of "a + b"] by simp

lemma js_add_nat_one:
  "a + 1 \<le> 2 ^ 53 \<Longrightarrow> js_add (Fin (of_nat a)) (Fin 1) = Fin (of_nat (a + 1))"
  using js_add_nat [of a 1] by simp

lemma js_sub_nat_one:
  "Suc k \<le> 2 ^ 53 \<Longrightarrow> js_sub (Fin (of_nat (Suc k))) (Fin 1) = Fin (of_nat k)"
  using fl_safe_nat [of k] by (simp add: js_sub_def)

lemma js_le_nat: "js_le (Fin (of_nat a)) (Fin (of_nat b)) = (a \<le> b)"
  by (auto simp: js_le_def)

text \<open>Above \<open>2 ^ 53\<close> the odd integers are not: \<open>2 ^ 53 + 1\<close> rounds back to \<open>2 ^ 53\<close>.\<close>

lemma fl_stuck: "fl 9007199254740993 = Fin 9007199254740992"
proof -
  have "fl_round 9007199254740993 = 9007199254740992"
    by code_simp
  then show ?thesis
    by (simp add: fl_def)
qed

section \<open>Problem 1: the three sums\<close>

lemma guard_nat: "1 \<le> n \<Longrightarrow> \<not> (js_lt (Fin (of_nat n)) (Fin 1) \<or> \<not> isInteger (Fin (of_nat n)))"
  by (simp add: isInteger_def)

lemma sum_loop_exact:
  assumes "i \<le> n + 1" and "s + \<Sum>{i..n} \<le> 2 ^ 53" and "n + 1 \<le> 2 ^ 53"
  shows "sum_loop (Fin (of_nat n)) (Fin (of_nat i)) (Fin (of_nat s))
           = Some (Fin (of_nat (s + \<Sum>{i..n})))"
  using assms
proof (induction "n + 1 - i" arbitrary: i s)
  case 0
  then have i: "i = n + 1" by simp
  have "\<not> js_le (Fin (of_nat i)) (Fin (of_nat n))"
    unfolding js_le_nat using i by simp
  then show ?case
    using i by (subst sum_loop.simps) simp
next
  case (Suc d)
  then have le: "i \<le> n" by simp
  have split: "\<Sum>{i..n} = i + \<Sum>{Suc i..n}"
    using le by (rule sum.atLeast_Suc_atMost)
  have i1: "i + 1 \<le> 2 ^ 53" using le Suc.prems(3) by simp
  have si: "s + i \<le> 2 ^ 53" using Suc.prems(2) split by simp
  have "sum_loop (Fin (of_nat n)) (Fin (of_nat i)) (Fin (of_nat s))
          = sum_loop (Fin (of_nat n)) (Fin (of_nat (i + 1))) (Fin (of_nat (s + i)))"
    by (subst sum_loop.simps) (simp only: js_le_nat le if_True js_add_nat_one [OF i1] js_add_nat [OF si])
  also have "\<dots> = Some (Fin (of_nat (s + i + \<Sum>{i + 1..n})))"
  proof (rule Suc.hyps(1))
    show "d = n + 1 - (i + 1)" using Suc.hyps(2) by simp
    show "i + 1 \<le> n + 1" using le by simp
    show "s + i + \<Sum>{i + 1..n} \<le> 2 ^ 53" using Suc.prems(2) split by simp
    show "n + 1 \<le> 2 ^ 53" by (rule Suc.prems(3))
  qed
  finally show ?case using split by (simp add: add.assoc)
qed

lemma gauss_from_one: "\<Sum>{1..n::nat} = n * (n + 1) div 2"
  using Sum_Icc_nat [of 1 n] by simp

lemma succ_safe:
  fixes n :: nat
  assumes "1 \<le> n" and "n * (n + 1) div 2 \<le> 2 ^ 53"
  shows "n + 1 \<le> 2 ^ 53"
proof (cases "n = 1")
  case True
  then show ?thesis by simp
next
  case False
  with assms(1) have "2 \<le> n" by simp
  then have "2 * (n + 1) \<le> n * (n + 1)" by (rule mult_le_mono1)
  then have "n + 1 \<le> n * (n + 1) div 2" by simp
  with assms(2) show ?thesis by linarith
qed

lemma sum_to_n_a_exact:
  assumes "1 \<le> n" and "n * (n + 1) div 2 \<le> 2 ^ 53"
  shows "sum_to_n_a (Fin (of_nat n)) = Some (Fin (of_nat (n * (n + 1) div 2)))"
proof -
  have "sum_loop (Fin (of_nat n)) (Fin (of_nat 1)) (Fin (of_nat 0))
          = Some (Fin (of_nat (0 + \<Sum>{1..n})))"
  proof (rule sum_loop_exact)
    show "1 \<le> n + 1" by simp
    show "0 + \<Sum>{1..n} \<le> 2 ^ 53" unfolding gauss_from_one using assms(2) by simp
    show "n + 1 \<le> 2 ^ 53" using assms by (rule succ_safe)
  qed
  then have "sum_loop (Fin (of_nat n)) (Fin 1) (Fin 0) = Some (Fin (of_nat (n * (n + 1) div 2)))"
    unfolding gauss_from_one by simp
  then show ?thesis
    using guard_nat [OF assms(1)] by (simp only: sum_to_n_a_def if_False)
qed

lemma sum_to_n_b_exact:
  assumes "1 \<le> n" and "n * (n + 1) div 2 \<le> 2 ^ 53"
  shows "sum_to_n_b (Fin (of_nat n)) = Fin (of_nat (n * (n + 1) div 2))"
proof -
  have "n + 1 \<le> 2 ^ 53" using assms by (rule succ_safe)
  then have a: "js_add (Fin (of_nat n)) (Fin 1) = Fin (of_nat (n + 1))"
    by (rule js_add_nat_one)
  have ev: "even (n * (n + 1))" by simp
  then obtain h where h: "n * (n + 1) = 2 * h" by (elim evenE)
  have "h \<le> 2 ^ 53" using assms(2) h by simp
  then have "n * (n + 1) \<le> 2 ^ 54" using h by simp
  then have "fl (of_nat (n * (n + 1))) = Fin (of_nat (n * (n + 1)))"
    using ev by (rule fl_even_nat)
  then have m: "js_mul (Fin (of_nat n)) (Fin (of_nat (n + 1))) = Fin (of_nat (n * (n + 1)))"
    by (simp only: js_mul.simps of_nat_mult)
  have "n * (n + 1) div 2 = h" using h by simp
  moreover have "(of_nat (n * (n + 1)) :: rat) = 2 * of_nat h"
    by (simp only: h of_nat_mult of_nat_numeral)
  ultimately have half: "(of_nat (n * (n + 1)) :: rat) / 2 = of_nat (n * (n + 1) div 2)"
    by simp
  have "fl (of_nat (n * (n + 1) div 2)) = Fin (of_nat (n * (n + 1) div 2))"
    using assms(2) by (rule fl_safe_nat)
  moreover have "js_div (Fin (of_nat (n * (n + 1)))) (Fin 2) = fl (of_nat (n * (n + 1)) / 2)"
    by simp
  ultimately have d: "js_div (Fin (of_nat (n * (n + 1)))) (Fin 2) = Fin (of_nat (n * (n + 1) div 2))"
    by (simp only: half)
  show ?thesis
    using guard_nat [OF assms(1)] by (simp only: sum_to_n_b_def if_False a m d)
qed

lemma sum_to_n_c_exact:
  assumes "1 \<le> n" and "n * (n + 1) div 2 \<le> 2 ^ 53" and "n \<le> frames"
  shows "sum_to_n_c frames (Fin (of_nat n)) = Inr (Fin (of_nat (n * (n + 1) div 2)))"
  using assms
proof (induction n arbitrary: frames rule: nat_induct_at_least)
  case base
  then obtain f where "frames = Suc f" by (cases frames) simp_all
  then show ?case by (simp add: isInteger_def)
next
  case (Suc k)
  from Suc.prems(2) obtain f where f: "frames = Suc f" and kf: "k \<le> f"
    by (cases frames) simp_all
  have step: "Suc k + k * (k + 1) div 2 = Suc k * (Suc k + 1) div 2"
    by simp
  then have "k * (k + 1) div 2 \<le> Suc k * (Suc k + 1) div 2"
    by linarith
  then have "k * (k + 1) div 2 \<le> 2 ^ 53"
    using Suc.prems(1) by linarith
  then have ih: "sum_to_n_c f (Fin (of_nat k)) = Inr (Fin (of_nat (k * (k + 1) div 2)))"
    using kf by (rule Suc.IH)
  have "Suc k + 1 \<le> 2 ^ 53"
    using Suc.prems(1) by (intro succ_safe) simp_all
  then have sub: "js_sub (Fin (of_nat (Suc k))) (Fin 1) = Fin (of_nat k)"
    by (intro js_sub_nat_one) simp
  have "Suc k + k * (k + 1) div 2 \<le> 2 ^ 53"
    unfolding step using Suc.prems(1) by simp
  then have add: "js_add (Fin (of_nat (Suc k))) (Fin (of_nat (k * (k + 1) div 2)))
      = Fin (of_nat (Suc k * (Suc k + 1) div 2))"
    unfolding step [symmetric] by (rule js_add_nat)
  have ne: "Fin (of_nat (Suc k)) \<noteq> Fin 1"
    using Suc.hyps by simp
  show ?case
    unfolding f using guard_nat [of "Suc k"] ne
    by (simp only: sum_to_n_c.simps sub ih add if_False sum.case le_add2 plus_1_eq_Suc simp_thms)
qed

text \<open>With fewer frames than \<open>n\<close>, the innermost call finds no room.\<close>

lemma sum_to_n_c_overflow:
  assumes "1 \<le> n" and "n + 1 \<le> 2 ^ 53" and "frames < n"
  shows "sum_to_n_c frames (Fin (of_nat n)) = Inl RangeError"
  using assms
proof (induction frames arbitrary: n)
  case 0
  show ?case by simp
next
  case (Suc f)
  then obtain k where n: "n = Suc k" and fk: "f < k"
    by (cases n) simp_all
  then have k1: "1 \<le> k" by simp
  have "k + 1 \<le> 2 ^ 53" using Suc.prems(2) n by simp
  with k1 have ih: "sum_to_n_c f (Fin (of_nat k)) = Inl RangeError"
    using fk by (rule Suc.IH)
  have sub: "js_sub (Fin (of_nat (Suc k))) (Fin 1) = Fin (of_nat k)"
    using Suc.prems(2) n by (intro js_sub_nat_one) simp
  have ne: "Fin (of_nat (Suc k)) \<noteq> Fin 1"
    using k1 by simp
  show ?case
    unfolding n using guard_nat [of "Suc k"] ne
    by (simp only: sum_to_n_c.simps sub ih if_False sum.case le_add2 plus_1_eq_Suc simp_thms)
qed

lemma sum_loop_stuck_aux:
  assumes "sum_loop n i s = Some y"
  shows "\<not> (n = Fin 9007199254740994 \<and> (\<exists>k::nat. i = Fin (of_nat k) \<and> k \<le> 2 ^ 53))"
proof (rule sum_loop.raw_induct
    [where P = "\<lambda>n i s y. \<not> (n = Fin 9007199254740994 \<and> (\<exists>k::nat. i = Fin (of_nat k) \<and> k \<le> 2 ^ 53))",
      OF _ assms])
  fix loop :: "jsnum \<Rightarrow> jsnum \<Rightarrow> jsnum \<Rightarrow> jsnum option" and n i s y
  assume IH: "\<And>n i s y. loop n i s = Some y \<Longrightarrow>
      \<not> (n = Fin 9007199254740994 \<and> (\<exists>k::nat. i = Fin (of_nat k) \<and> k \<le> 2 ^ 53))"
    and body: "(if js_le i n then loop n (js_add i (Fin 1)) (js_add s i) else Some s) = Some y"
  show "\<not> (n = Fin 9007199254740994 \<and> (\<exists>k::nat. i = Fin (of_nat k) \<and> k \<le> 2 ^ 53))"
  proof
    assume "n = Fin 9007199254740994 \<and> (\<exists>k::nat. i = Fin (of_nat k) \<and> k \<le> 2 ^ 53)"
    then obtain k :: nat where n: "n = Fin 9007199254740994" and i: "i = Fin (of_nat k)"
      and k: "k \<le> 2 ^ 53"
      by blast
    have "(of_nat k :: rat) \<le> of_nat (2 ^ 53)"
      using k by (simp only: of_nat_le_iff)
    then have "js_le i n"
      by (simp add: i n js_le_def)
    with body have run: "loop n (js_add i (Fin 1)) (js_add s i) = Some y"
      by simp
    have "\<exists>k'::nat. js_add i (Fin 1) = Fin (of_nat k') \<and> k' \<le> 2 ^ 53"
    proof (cases "k = 2 ^ 53")
      case True
      then have "js_add i (Fin 1) = Fin (of_nat (2 ^ 53))"
        using fl_stuck by (simp add: i)
      then show ?thesis by blast
    next
      case False
      then have "k + 1 \<le> 2 ^ 53" using k by simp
      then show ?thesis
        using js_add_nat_one [of k] i by blast
    qed
    with IH [OF run] n show False by blast
  qed
qed

lemma sum_to_n_a_diverges: "sum_to_n_a (Fin 9007199254740994) = None"
proof (cases "sum_to_n_a (Fin 9007199254740994)")
  case None
  then show ?thesis .
next
  case (Some y)
  have "\<not> (js_lt (Fin 9007199254740994) (Fin 1) \<or> \<not> isInteger (Fin 9007199254740994))"
    by (simp add: isInteger_def)
  with Some have "sum_loop (Fin 9007199254740994) (Fin 1) (Fin 0) = Some y"
    by (simp only: sum_to_n_a_def if_False)
  from sum_loop_stuck_aux [OF this]
  have "\<not> (\<exists>k::nat. Fin 1 = Fin (of_nat k) \<and> k \<le> 2 ^ 53)"
    by simp
  moreover have "Fin 1 = Fin (of_nat 1) \<and> (1::nat) \<le> 2 ^ 53"
    by simp
  ultimately show ?thesis by blast
qed

lemma sum_to_n_b_at_stuck:
  "sum_to_n_b (Fin 9007199254740994) = Fin 40564819207303367869492266795008"
proof -
  have 1: "fl_round 9007199254740995 = 9007199254740996"
    by code_simp
  have 2: "fl_round 81129638414606735738984533590024 = 81129638414606735738984533590016"
    by code_simp
  have 3: "fl_round 40564819207303367869492266795008 = 40564819207303367869492266795008"
    by code_simp
  show ?thesis
    by (simp add: sum_to_n_b_def isInteger_def fl_def 1 2 3)
qed

text \<open>The guard of the three functions lets through exactly the positive integers.\<close>

lemma guard_iff_not_positive_integer:
  "(js_lt x (Fin 1) \<or> \<not> isInteger x) = (\<nexists>k::nat. 1 \<le> k \<and> x = Fin (of_nat k))"
proof (cases x)
  case (Fin r)
  show ?thesis
  proof (cases "1 \<le> r \<and> of_int \<lfloor>r\<rfloor> = r")
    case True
    then have "1 \<le> \<lfloor>r\<rfloor>" by linarith
    then have "1 \<le> nat \<lfloor>r\<rfloor>" and "(of_nat (nat \<lfloor>r\<rfloor>) :: rat) = of_int \<lfloor>r\<rfloor>"
      by (simp_all add: le_nat_iff)
    with True have "\<exists>k::nat. 1 \<le> k \<and> r = of_nat k"
      by metis
    with True show ?thesis
      by (auto simp: Fin isInteger_def)
  next
    case False
    have "r \<noteq> of_nat k" if "1 \<le> k" for k :: nat
    proof
      assume "r = of_nat k"
      with that have "1 \<le> r \<and> of_int \<lfloor>r\<rfloor> = r" by simp
      with False show False by blast
    qed
    with False show ?thesis
      by (auto simp: Fin isInteger_def)
  qed
qed (simp_all add: isInteger_def)

lemma sum_to_n_zero:
  assumes "js_lt x (Fin 1) \<or> \<not> isInteger x"
  shows "sum_to_n_a x = Some (Fin 0)" and "sum_to_n_b x = Fin 0"
    and "sum_to_n_c (Suc frames) x = Inr (Fin 0)"
proof -
  show "sum_to_n_a x = Some (Fin 0)"
    using assms by (simp only: sum_to_n_a_def if_True)
  show "sum_to_n_b x = Fin 0"
    using assms by (simp only: sum_to_n_b_def if_True)
  show "sum_to_n_c (Suc frames) x = Inr (Fin 0)"
    using assms by (simp only: sum_to_n_c.simps if_True)
qed

text \<open>
  Claim C10, as amended. For every number that is not a positive integer the three
  implementations return 0, \<open>sum_to_n_c\<close> in a single call. For every integer \<open>n \<ge> 1\<close>
  whose sum \<open>n * (n + 1) / 2\<close> is at most \<open>2 ^ 53\<close>, so that every intermediate value is a
  number that binary64 represents exactly, \<open>sum_to_n_a\<close> and \<open>sum_to_n_b\<close> return
  \<open>n * (n + 1) / 2\<close>; \<open>sum_to_n_c\<close> returns the same number when the call stack has room
  for its \<open>n\<close> nested calls, and throws \<open>RangeError\<close> when it has not.
\<close>

theorem sum_to_n_agree:
  fixes n frames :: nat and x :: jsnum
  shows "((\<nexists>k::nat. 1 \<le> k \<and> x = Fin (of_nat k)) \<longrightarrow>
            sum_to_n_a x = Some (Fin 0) \<and> sum_to_n_b x = Fin 0 \<and>
            sum_to_n_c (Suc frames) x = Inr (Fin 0))
       \<and> (1 \<le> n \<and> n * (n + 1) div 2 \<le> 2 ^ 53 \<longrightarrow>
            sum_to_n_a (Fin (of_nat n)) = Some (Fin (of_nat (n * (n + 1) div 2))) \<and>
            sum_to_n_b (Fin (of_nat n)) = Fin (of_nat (n * (n + 1) div 2)) \<and>
            sum_to_n_c frames (Fin (of_nat n)) =
              (if n \<le> frames then Inr (Fin (of_nat (n * (n + 1) div 2))) else Inl RangeError))"
proof (intro conjI impI)
  assume "\<nexists>k::nat. 1 \<le> k \<and> x = Fin (of_nat k)"
  then have g: "js_lt x (Fin 1) \<or> \<not> isInteger x"
    unfolding guard_iff_not_positive_integer .
  show "sum_to_n_a x = Some (Fin 0)" by (rule sum_to_n_zero(1) [OF g])
  show "sum_to_n_b x = Fin 0" by (rule sum_to_n_zero(2) [OF g])
  show "sum_to_n_c (Suc frames) x = Inr (Fin 0)" by (rule sum_to_n_zero(3) [OF g])
next
  assume a: "1 \<le> n \<and> n * (n + 1) div 2 \<le> 2 ^ 53"
  then have n1: "1 \<le> n" and s: "n * (n + 1) div 2 \<le> 2 ^ 53" by simp_all
  show "sum_to_n_a (Fin (of_nat n)) = Some (Fin (of_nat (n * (n + 1) div 2)))"
    using n1 s by (rule sum_to_n_a_exact)
  show "sum_to_n_b (Fin (of_nat n)) = Fin (of_nat (n * (n + 1) div 2))"
    using n1 s by (rule sum_to_n_b_exact)
  show "sum_to_n_c frames (Fin (of_nat n)) =
      (if n \<le> frames then Inr (Fin (of_nat (n * (n + 1) div 2))) else Inl RangeError)"
  proof (cases "n \<le> frames")
    case True
    with n1 s show ?thesis by (simp only: sum_to_n_c_exact if_True)
  next
    case False
    then have "frames < n" by simp
    moreover have "n + 1 \<le> 2 ^ 53" using n1 s by (rule succ_safe)
    ultimately have "sum_to_n_c frames (Fin (of_nat n)) = Inl RangeError"
      using n1 by (intro sum_to_n_c_overflow)
    with False show ?thesis by (simp only: if_False)
  qed
qed

text \<open>
  The theorem at \<open>n = 4\<close>, with room for four calls and with room for three, and at the
  number \<open>5 / 2\<close>, which is not an integer.
\<close>

theorem sum_to_n_agree_witness:
  "sum_to_n_a (Fin 4) = Some (Fin 10) \<and> sum_to_n_b (Fin 4) = Fin 10 \<and>
   sum_to_n_c 4 (Fin 4) = Inr (Fin 10) \<and> sum_to_n_c 3 (Fin 4) = Inl RangeError \<and>
   sum_to_n_a (Fin (5 / 2)) = Some (Fin 0) \<and> sum_to_n_b (Fin (5 / 2)) = Fin 0 \<and>
   sum_to_n_c 4 (Fin (5 / 2)) = Inr (Fin 0)"
proof -
  have "\<nexists>k::nat. 1 \<le> k \<and> Fin (5 / 2) = Fin (of_nat k)"
  proof
    assume "\<exists>k::nat. 1 \<le> k \<and> Fin (5 / 2) = Fin (of_nat k)"
    then obtain k :: nat where "(5::rat) / 2 = of_nat k" by auto
    then have "(of_nat (2 * k) :: rat) = of_nat 5" by simp
    then have "2 * k = 5" by (simp only: of_nat_eq_iff)
    then show False by presburger
  qed
  moreover have "(1::nat) \<le> 4 \<and> (4::nat) * (4 + 1) div 2 \<le> 2 ^ 53"
    by simp
  ultimately have "sum_to_n_a (Fin 4) = Some (Fin 10) \<and> sum_to_n_b (Fin 4) = Fin 10 \<and>
      sum_to_n_c 3 (Fin 4) = Inl RangeError \<and>
      sum_to_n_a (Fin (5 / 2)) = Some (Fin 0) \<and> sum_to_n_b (Fin (5 / 2)) = Fin 0 \<and>
      sum_to_n_c 4 (Fin (5 / 2)) = Inr (Fin 0)"
    using sum_to_n_agree [of "Fin (5 / 2)" 3 4] by simp
  moreover have "sum_to_n_c 4 (Fin 4) = Inr (Fin 10)"
    using sum_to_n_agree [of "Fin 4" 4 4] by simp
  ultimately show ?thesis by simp
qed

text \<open>
  The claim as stated, for every number, fails at \<open>n = 2 ^ 53 + 2\<close>: the loop variable of
  \<open>sum_to_n_a\<close> reaches \<open>2 ^ 53\<close>, where \<open>i++\<close> leaves it unchanged, and the loop never ends,
  while \<open>sum_to_n_b\<close> returns a number.
\<close>

theorem sum_to_n_a_no_result:
  "sum_to_n_a (Fin 9007199254740994) = None \<and>
   sum_to_n_b (Fin 9007199254740994) = Fin 40564819207303367869492266795008"
  using sum_to_n_a_diverges sum_to_n_b_at_stuck by simp
section \<open>Sorting with a comparator\<close>

lemma mset_insert_cmp: "mset (insert_cmp cmp x ys) = add_mset x (mset ys)"
  by (induction ys) simp_all

lemma mset_Array_sort: "mset (Array_sort cmp xs) = mset xs"
  by (induction xs) (simp_all add: Array_sort_def mset_insert_cmp)

lemma set_insert_cmp: "set (insert_cmp cmp x ys) = insert x (set ys)"
  by (induction ys) auto

lemma Array_sort_Cons:
  "Array_sort cmp (x # xs) = insert_cmp cmp x (Array_sort cmp xs)"
  by (simp add: Array_sort_def)

section \<open>Wallet balances\<close>

lemma sorted_insert_key:
  fixes k :: "'a \<Rightarrow> int"
  assumes "sorted_wrt (\<lambda>l r. k r \<le> k l) ys"
  shows "sorted_wrt (\<lambda>l r. k r \<le> k l) (insert_cmp (\<lambda>l r. k r - k l) x ys)"
  using assms
proof (induction ys)
  case Nil
  then show ?case by simp
next
  case (Cons y ys)
  show ?case
  proof (cases "k y - k x \<le> 0")
    case True
    with Cons.prems show ?thesis by auto
  next
    case False
    with Cons show ?thesis by (auto simp: set_insert_cmp)
  qed
qed

lemma sorted_Array_sort_key:
  fixes k :: "'a \<Rightarrow> int"
  shows "sorted_wrt (\<lambda>l r. k r \<le> k l) (Array_sort (\<lambda>l r. k r - k l) xs)"
proof (induction xs)
  case Nil
  show ?case by (simp add: Array_sort_def)
next
  case (Cons x xs)
  then show ?case
    unfolding Array_sort_Cons by (rule sorted_insert_key)
qed

lemma getPriority_lower: "- 99 \<le> getPriority b"
  by (simp add: getPriority_def)

lemma getPriority_supported: "(getPriority b > - 99) = (getPriority b \<noteq> - 99)"
  using getPriority_lower [of b] by linarith

text \<open>
  Claim C7. \<open>sortedBalances\<close> returns exactly the balances of its input whose blockchain
  priority is not the sentinel \<open>-99\<close> and whose amount is greater than 0, each as often as
  the input has it, in descending order of the priority of their blockchain.
\<close>

theorem sortedBalances_select:
  "mset (sortedBalances balances) =
     mset (filter (\<lambda>b. getPriority (blockchain b) \<noteq> - 99 \<and> js_gt (amount b) (Fin 0)) balances)
   \<and> sorted_wrt (\<lambda>l r. getPriority (blockchain r) \<le> getPriority (blockchain l))
        (sortedBalances balances)"
proof
  show "mset (sortedBalances balances) =
     mset (filter (\<lambda>b. getPriority (blockchain b) \<noteq> - 99 \<and> js_gt (amount b) (Fin 0)) balances)"
    by (simp add: sortedBalances_def mset_Array_sort getPriority_supported)
  show "sorted_wrt (\<lambda>l r. getPriority (blockchain r) \<le> getPriority (blockchain l))
        (sortedBalances balances)"
    unfolding sortedBalances_def Let_def
    by (rule sorted_Array_sort_key [where k = "\<lambda>b. getPriority (blockchain b)"])
qed

text \<open>
  The theorem on four balances: an unsupported blockchain and a zero amount are dropped,
  and the Osmosis balance comes before the Ethereum one.
\<close>

theorem sortedBalances_select_witness:
  "mset (sortedBalances
     [\<lparr>currency_wb = ''ETH'', amount = Fin 2, blockchain = ''Ethereum''\<rparr>,
      \<lparr>currency_wb = ''FOO'', amount = Fin 1, blockchain = ''Unknown''\<rparr>,
      \<lparr>currency_wb = ''OSMO'', amount = Fin 0, blockchain = ''Osmosis''\<rparr>,
      \<lparr>currency_wb = ''ATOM'', amount = Fin (1 / 2), blockchain = ''Osmosis''\<rparr>])
   = {#\<lparr>currency_wb = ''ETH'', amount = Fin 2, blockchain = ''Ethereum''\<rparr>,
       \<lparr>currency_wb = ''ATOM'', amount = Fin (1 / 2), blockchain = ''Osmosis''\<rparr>#}
   \<and> sortedBalances
     [\<lparr>currency_wb = ''ETH'', amount = Fin 2, blockchain = ''Ethereum''\<rparr>,
      \<lparr>currency_wb = ''FOO'', amount = Fin 1, blockchain = ''Unknown''\<rparr>,
      \<lparr>currency_wb = ''OSMO'', amount = Fin 0, blockchain = ''Osmosis''\<rparr>,
      \<lparr>currency_wb = ''ATOM'', amount = Fin (1 / 2), blockchain = ''Osmosis''\<rparr>]
   = [\<lparr>currency_wb = ''ATOM'', amount = Fin (1 / 2), blockchain = ''Osmosis''\<rparr>,
      \<lparr>currency_wb = ''ETH'', amount = Fin 2, blockchain = ''Ethereum''\<rparr>]"
proof -
  let ?eth = "\<lparr>currency_wb = ''ETH'', amount = Fin 2, blockchain = ''Ethereum''\<rparr>"
  let ?foo = "\<lparr>currency_wb = ''FOO'', amount = Fin 1, blockchain = ''Unknown''\<rparr>"
  let ?osmo = "\<lparr>currency_wb = ''OSMO'', amount = Fin 0, blockchain = ''Osmosis''\<rparr>"
  let ?atom = "\<lparr>currency_wb = ''ATOM'', amount = Fin (1 / 2), blockchain = ''Osmosis''\<rparr>"
  have "mset (sortedBalances [?eth, ?foo, ?osmo, ?atom]) = {#?eth, ?atom#}"
    using sortedBalances_select [of "[?eth, ?foo, ?osmo, ?atom]"]
    by (simp add: getPriority_def js_gt_def)
  moreover have "sortedBalances [?eth, ?foo, ?osmo, ?atom] = [?atom, ?eth]"
    by (simp add: sortedBalances_def Array_sort_def getPriority_def js_gt_def)
  ultimately show ?thesis by simp
qed

section \<open>The token catalog\<close>

lemma map_of_Map_set: "map_of (Map_set k v m) = (map_of m)(k \<mapsto> v)"
  by (induction m) auto

lemma keys_Map_set: "set (map fst (Map_set k v m)) = insert k (set (map fst m))"
  by (induction m) auto

lemma fst_set_Map_set: "fst ` set (Map_set k v m) = insert k (fst ` set m)"
  by (induction m) auto

lemma distinct_Map_set: "distinct (map fst m) \<Longrightarrow> distinct (map fst (Map_set k v m))"
  by (induction m) (auto simp: fst_set_Map_set)

lemma set_Map_set: "set (Map_set k v m) \<subseteq> insert (k, v) (set m)"
  by (induction m) auto

lemma keyed_add_token: "keyed m \<Longrightarrow> keyed (add_token m item)"
  unfolding keyed_def add_token_def
  using set_Map_set [of "currency item" "token_of item" m]
  by (auto simp: distinct_Map_set token_of_def)

lemma keyed_foldl: "keyed m \<Longrightarrow> keyed (foldl add_token m data)"
  by (induction data arbitrary: m) (simp_all add: keyed_add_token)

lemma keyed_Nil: "keyed []"
  by (simp add: keyed_def)

lemma map_of_add_token:
  "map_of (add_token m item) c =
     (if js_gt (price item) (Fin 0) \<and> currency item = c then Some (token_of item) else map_of m c)"
  by (cases "price item") (auto simp: add_token_def map_of_Map_set token_of_def truthy_def js_gt_def)

lemma map_of_foldl_add_token:
  "map_of (foldl add_token m data) c =
     (case filter (\<lambda>r. currency r = c \<and> js_gt (price r) (Fin 0)) data of
        [] \<Rightarrow> map_of m c
      | r # rs \<Rightarrow> Some (token_of (last (r # rs))))"
proof (induction data rule: rev_induct)
  case Nil
  show ?case by simp
next
  case (snoc x xs)
  show ?case
    using snoc by (auto simp: map_of_add_token split: list.splits)
qed

lemma filter_keyed:
  assumes "keyed m" and "map_of m c = Some v"
  shows "filter (\<lambda>t. currency t = c) (Map_values m) = [v]"
  using assms
proof (induction m)
  case Nil
  then show ?case by simp
next
  case (Cons e m)
  have k: "keyed m" using Cons.prems(1) by (simp add: keyed_def)
  show ?case
  proof (cases "fst e = c")
    case True
    then have "c \<notin> fst ` set m" using Cons.prems(1) by (auto simp: keyed_def)
    moreover have "\<forall>e' \<in> set m. currency (snd e') = fst e'" using k by (simp add: keyed_def)
    ultimately have "filter (\<lambda>t. currency t = c) (map snd m) = []"
      by (auto simp: filter_empty_conv)
    moreover have "snd e = v" "currency (snd e) = c"
      using True Cons.prems by (cases e, auto simp: keyed_def)+
    ultimately show ?thesis by (simp add: Map_values_def)
  next
    case False
    then have "map_of m c = Some v" using Cons.prems(2) by (cases e) auto
    from Cons.IH [OF k this] have "filter (\<lambda>t. currency t = c) (Map_values m) = [v]" .
    moreover have "currency (snd e) \<noteq> c" using False Cons.prems(1) by (simp add: keyed_def)
    ultimately show ?thesis by (simp add: Map_values_def)
  qed
qed

lemma filter_Array_sort_single:
  assumes "filter P xs = [v]"
  shows "filter P (Array_sort cmp xs) = [v]"
proof -
  have "mset (filter P (Array_sort cmp xs)) = mset (filter P xs)"
    by (simp add: mset_Array_sort)
  then have "mset (filter P (Array_sort cmp xs)) = {#v#}"
    using assms by simp
  then show ?thesis by (simp only: mset_single_iff)
qed

lemma set_Array_sort: "set (Array_sort cmp xs) = set xs"
  by (metis mset_Array_sort set_mset_mset)

lemma consistent_anti: "consistent cmp \<Longrightarrow> 0 < cmp a b \<Longrightarrow> cmp b a < 0"
  unfolding consistent_def by blast

lemma consistent_trans: "consistent cmp \<Longrightarrow> cmp a b \<le> 0 \<Longrightarrow> cmp b c \<le> 0 \<Longrightarrow> cmp a c \<le> 0"
  unfolding consistent_def by blast

lemma ascending_insert_cmp:
  assumes c: "consistent cmp"
    and s: "sorted_wrt (\<lambda>a b. cmp (key a) (key b) \<le> 0) ys"
  shows "sorted_wrt (\<lambda>a b. cmp (key a) (key b) \<le> 0) (insert_cmp (\<lambda>a b. cmp (key a) (key b)) x ys)"
  using s
proof (induction ys)
  case Nil
  show ?case by simp
next
  case (Cons y ys)
  have sy: "\<forall>z \<in> set ys. cmp (key y) (key z) \<le> 0"
    and sys: "sorted_wrt (\<lambda>a b. cmp (key a) (key b) \<le> 0) ys"
    using Cons.prems by simp_all
  show ?case
  proof (cases "cmp (key x) (key y) \<le> 0")
    case True
    have "cmp (key x) (key z) \<le> 0" if z: "z \<in> set ys" for z
    proof -
      have "cmp (key y) (key z) \<le> 0" using sy z by blast
      with True show ?thesis by (rule consistent_trans [OF c])
    qed
    with True Cons.prems show ?thesis by simp
  next
    case False
    then have yx: "cmp (key y) (key x) \<le> 0"
      using consistent_anti [OF c, of "key x" "key y"] by linarith
    have ih: "sorted_wrt (\<lambda>a b. cmp (key a) (key b) \<le> 0) (insert_cmp (\<lambda>a b. cmp (key a) (key b)) x ys)"
      using Cons.IH [OF sys] .
    have "\<forall>z \<in> set (insert_cmp (\<lambda>a b. cmp (key a) (key b)) x ys). cmp (key y) (key z) \<le> 0"
      using yx sy by (simp add: set_insert_cmp)
    with ih False show ?thesis by simp
  qed
qed

lemma ascending_Array_sort:
  assumes "consistent cmp"
  shows "sorted_wrt (\<lambda>a b. cmp (key a) (key b) \<le> 0) (Array_sort (\<lambda>a b. cmp (key a) (key b)) xs)"
proof (induction xs)
  case Nil
  show ?case by (simp add: Array_sort_def)
next
  case (Cons x xs)
  show ?case
    unfolding Array_sort_Cons using assms Cons by (rule ascending_insert_cmp)
qed

text \<open>Where no two keys of the list compare equal, an ascending list ascends strictly.\<close>

lemma ascending_strict:
  fixes cmp :: "'k \<Rightarrow> 'k \<Rightarrow> int"
  assumes "sorted_wrt (\<lambda>a b. cmp (key a) (key b) \<le> 0) xs"
    and "distinct (map key xs)"
    and "\<forall>a \<in> set xs. \<forall>b \<in> set xs. key a \<noteq> key b \<longrightarrow> cmp (key a) (key b) \<noteq> 0"
  shows "sorted_wrt (\<lambda>a b. cmp (key a) (key b) < 0) xs"
  using assms
proof (induction xs)
  case Nil
  show ?case by simp
next
  case (Cons x xs)
  have "cmp (key x) (key z) < 0" if z: "z \<in> set xs" for z
  proof -
    have "cmp (key x) (key z) \<le> 0" using Cons.prems(1) z by simp
    moreover have "key x \<noteq> key z" using Cons.prems(2) z by auto
    then have "cmp (key x) (key z) \<noteq> 0" using Cons.prems(3) z by simp
    ultimately show ?thesis by linarith
  qed
  moreover have "sorted_wrt (\<lambda>a b. cmp (key a) (key b) < 0) xs"
    using Cons.prems by (intro Cons.IH) simp_all
  ultimately show ?case by simp
qed

lemma keyed_currencies: "keyed m \<Longrightarrow> map currency (Map_values m) = map fst m"
  by (induction m) (simp_all add: keyed_def Map_values_def)

lemma code_compare_eq: "(code_compare a b = 0) = (a = b)"
  by (induction a b rule: code_compare.induct) (auto split: if_splits)

lemma code_compare_anti: "0 < code_compare a b \<Longrightarrow> code_compare b a < 0"
  by (induction a b rule: code_compare.induct) (auto split: if_splits)

lemma code_compare_Nil: "code_compare [] c \<le> 0"
  by (cases c) simp_all

lemma code_compare_trans:
  "code_compare a b \<le> 0 \<Longrightarrow> code_compare b c \<le> 0 \<Longrightarrow> code_compare a c \<le> 0"
proof (induction a arbitrary: b c)
  case Nil
  show ?case by (rule code_compare_Nil)
next
  case (Cons x xs)
  from Cons.prems(1) obtain y ys where b: "b = y # ys"
    by (cases b) simp_all
  from Cons.prems(2) b obtain z zs where c: "c = z # zs"
    by (cases c) simp_all
  let ?x = "of_char x :: nat" and ?y = "of_char y :: nat" and ?z = "of_char z :: nat"
  have xy: "?x \<le> ?y" and xy': "?x < ?y \<or> code_compare xs ys \<le> 0"
    using Cons.prems(1) unfolding b by (simp_all split: if_splits)
  have yz: "?y \<le> ?z" and yz': "?y < ?z \<or> code_compare ys zs \<le> 0"
    using Cons.prems(2) unfolding b c by (simp_all split: if_splits)
  show ?case
  proof (cases "?x < ?z")
    case True
    then show ?thesis unfolding c by simp
  next
    case False
    with xy yz have e: "?x = ?y" "?y = ?z" by linarith+
    with xy' yz' have "code_compare xs ys \<le> 0" "code_compare ys zs \<le> 0" by simp_all
    then have "code_compare xs zs \<le> 0" by (rule Cons.IH)
    with e show ?thesis unfolding c by simp
  qed
qed

lemma consistent_code_compare: "consistent code_compare"
  unfolding consistent_def
proof (intro conjI allI impI)
  fix a b
  show "(code_compare a b < 0) = (0 < code_compare b a)"
    by (induction a b rule: code_compare.induct) (auto split: if_splits)
next
  fix a b c
  assume "code_compare a b \<le> 0 \<and> code_compare b c \<le> 0"
  then show "code_compare a c \<le> 0"
    using code_compare_trans by blast
qed

lemma consistent_weighted_compare: "consistent weighted_compare"
  using consistent_code_compare unfolding consistent_def weighted_compare_def by blast

text \<open>Every token of the catalog has a price greater than 0.\<close>

lemma add_token_positive:
  assumes "\<forall>e \<in> set m. js_gt (price (snd e)) (Fin 0)"
  shows "\<forall>e \<in> set (add_token m item). js_gt (price (snd e)) (Fin 0)"
proof (cases "truthy (price item) \<and> js_gt (price item) (Fin 0)")
  case True
  let ?t = "\<lparr>currency = currency item, price = price item, icon = icon_url (currency item)\<rparr>"
  have "set (add_token m item) \<subseteq> insert (currency item, ?t) (set m)"
    using True by (simp add: add_token_def set_Map_set)
  moreover have "js_gt (price (snd (currency item, ?t))) (Fin 0)"
    using True by simp
  ultimately show ?thesis using assms by blast
next
  case False
  then have "add_token m item = m" by (simp only: add_token_def if_False)
  with assms show ?thesis by simp
qed

lemma foldl_add_token_positive:
  assumes "\<forall>e \<in> set m. js_gt (price (snd e)) (Fin 0)"
  shows "\<forall>e \<in> set (foldl add_token m data). js_gt (price (snd e)) (Fin 0)"
  using assms
proof (induction data arbitrary: m)
  case Nil
  then show ?case by simp
next
  case (Cons item data)
  have "\<forall>e \<in> set (add_token m item). js_gt (price (snd e)) (Fin 0)"
    using Cons.prems by (rule add_token_positive)
  then show ?case
    unfolding foldl_Cons by (rule Cons.IH)
qed

lemma processTokenData_positive:
  assumes "t \<in> set (processTokenData lc data)"
  shows "js_gt (price t) (Fin 0)"
proof -
  from assms have "t \<in> set (Map_values (foldl add_token [] data))"
    by (simp add: processTokenData_def set_Array_sort)
  then obtain e where "e \<in> set (foldl add_token [] data)" and "t = snd e"
    by (auto simp: Map_values_def)
  moreover have "\<forall>e \<in> set (foldl add_token [] data). js_gt (price (snd e)) (Fin 0)"
    by (rule foldl_add_token_positive) simp
  ultimately show ?thesis by blast
qed

text \<open>
  Claim C4. When the input holds records of currency \<open>c\<close> with a price greater than 0,
  the catalog has exactly one token of currency \<open>c\<close>, and its price is the price of the
  last of these records in input order, whatever the collation.
\<close>

theorem processTokenData_last_wins:
  assumes "filter (\<lambda>r. currency r = c \<and> js_gt (price r) (Fin 0)) data \<noteq> []"
  shows "filter (\<lambda>t. currency t = c) (processTokenData localeCompare data) =
           [\<lparr>currency = c,
             price = price (last (filter (\<lambda>r. currency r = c \<and> js_gt (price r) (Fin 0)) data)),
             icon = icon_url c\<rparr>]"
proof -
  let ?valid = "filter (\<lambda>r. currency r = c \<and> js_gt (price r) (Fin 0)) data"
  let ?m = "foldl add_token [] data"
  have "last ?valid \<in> set ?valid" using assms by (rule last_in_set)
  then have "last ?valid \<in> {r \<in> set data. currency r = c \<and> js_gt (price r) (Fin 0)}"
    by (simp only: set_filter)
  then have cur: "currency (last ?valid) = c" by blast
  have "map_of ?m c = Some (token_of (last ?valid))"
    using assms by (simp add: map_of_foldl_add_token split: list.splits)
  moreover have "keyed ?m" by (simp add: keyed_foldl keyed_Nil)
  ultimately have "filter (\<lambda>t. currency t = c) (Map_values ?m) = [token_of (last ?valid)]"
    by (intro filter_keyed)
  then have "filter (\<lambda>t. currency t = c) (processTokenData localeCompare data) = [token_of (last ?valid)]"
    unfolding processTokenData_def Let_def by (rule filter_Array_sort_single)
  then show ?thesis by (simp add: token_of_def cur)
qed

text \<open>The theorem on the feed \<open>BTC 100, ETH 50, ETH 60\<close>: the ETH token costs 60.\<close>

theorem processTokenData_last_wins_witness:
  "filter (\<lambda>t. currency t = ''ETH'')
     (processTokenData code_compare
        [\<lparr>currency = ''BTC'', price = Fin 100\<rparr>, \<lparr>currency = ''ETH'', price = Fin 50\<rparr>,
         \<lparr>currency = ''ETH'', price = Fin 60\<rparr>])
   = [\<lparr>currency = ''ETH'', price = Fin 60, icon = icon_url ''ETH''\<rparr>]"
  using processTokenData_last_wins [of "''ETH''"
      "[\<lparr>currency = ''BTC'', price = Fin 100\<rparr>, \<lparr>currency = ''ETH'', price = Fin 50\<rparr>,
        \<lparr>currency = ''ETH'', price = Fin 60\<rparr>]" code_compare]
  by (simp add: js_gt_def)

text \<open>
  Claim C8, as amended. No two tokens of the catalog share a currency, and the catalog
  ascends under the comparison: no token compares greater than a later one. It ascends
  strictly where the comparison tells the currencies of the catalog apart; two currencies
  that it does not tell apart both stay in the catalog and tie.
\<close>

theorem processTokenData_ascending:
  assumes "consistent localeCompare"
  shows "distinct (map currency (processTokenData localeCompare data))
       \<and> sorted_wrt (\<lambda>a b. localeCompare (currency a) (currency b) \<le> 0)
           (processTokenData localeCompare data)
       \<and> ((\<forall>a \<in> set (processTokenData localeCompare data).
            \<forall>b \<in> set (processTokenData localeCompare data).
              currency a \<noteq> currency b \<longrightarrow> localeCompare (currency a) (currency b) \<noteq> 0)
          \<longrightarrow> sorted_wrt (\<lambda>a b. localeCompare (currency a) (currency b) < 0)
                (processTokenData localeCompare data))"
proof -
  let ?m = "foldl add_token [] data"
  let ?out = "processTokenData localeCompare data"
  have k: "keyed ?m" by (simp add: keyed_foldl keyed_Nil)
  then have d: "distinct (map currency (Map_values ?m))"
    by (simp add: keyed_currencies keyed_def)
  have "mset (map currency ?out) = mset (map currency (Map_values ?m))"
    by (simp add: processTokenData_def mset_Array_sort)
  then have "distinct (map currency ?out) = distinct (map currency (Map_values ?m))"
    by (rule mset_eq_imp_distinct_iff)
  with d have dist: "distinct (map currency ?out)"
    by simp
  have asc: "sorted_wrt (\<lambda>a b. localeCompare (currency a) (currency b) \<le> 0) ?out"
    unfolding processTokenData_def Let_def using assms by (rule ascending_Array_sort)
  have "sorted_wrt (\<lambda>a b. localeCompare (currency a) (currency b) < 0) ?out"
    if "\<forall>a \<in> set ?out. \<forall>b \<in> set ?out.
          currency a \<noteq> currency b \<longrightarrow> localeCompare (currency a) (currency b) \<noteq> 0"
    using asc dist that by (rule ascending_strict)
  with dist asc show ?thesis by blast
qed

text \<open>
  The theorem on the feed \<open>BTC 100, ETH 50, ETH 60\<close>, whose currencies the comparison
  tells apart.
\<close>

theorem processTokenData_ascending_witness:
  "consistent weighted_compare
   \<and> processTokenData weighted_compare
        [\<lparr>currency = ''BTC'', price = Fin 100\<rparr>, \<lparr>currency = ''ETH'', price = Fin 50\<rparr>,
         \<lparr>currency = ''ETH'', price = Fin 60\<rparr>]
     = [\<lparr>currency = ''BTC'', price = Fin 100, icon = icon_url ''BTC''\<rparr>,
        \<lparr>currency = ''ETH'', price = Fin 60, icon = icon_url ''ETH''\<rparr>]
   \<and> sorted_wrt (\<lambda>a b. weighted_compare (currency a) (currency b) < 0)
        [\<lparr>currency = ''BTC'', price = Fin 100, icon = icon_url ''BTC''\<rparr>,
         \<lparr>currency = ''ETH'', price = Fin 60, icon = icon_url ''ETH''\<rparr>]"
proof -
  let ?data = "[\<lparr>currency = ''BTC'', price = Fin 100\<rparr>, \<lparr>currency = ''ETH'', price = Fin 50\<rparr>,
         \<lparr>currency = ''ETH'', price = Fin 60\<rparr>]"
  let ?btc = "\<lparr>currency = ''BTC'', price = Fin 100, icon = icon_url ''BTC''\<rparr>"
  let ?eth = "\<lparr>currency = ''ETH'', price = Fin 60, icon = icon_url ''ETH''\<rparr>"
  have be: "weighted_compare ''BTC'' ''ETH'' = - 1" and eb: "weighted_compare ''ETH'' ''BTC'' = 1"
    by (simp_all add: weighted_compare_def ignorable_def)
  have e: "processTokenData weighted_compare ?data = [?btc, ?eth]"
    by (simp add: processTokenData_def add_token_def Array_sort_def Map_values_def truthy_def
        js_gt_def be eb)
  have apart: "\<forall>a \<in> set [?btc, ?eth]. \<forall>b \<in> set [?btc, ?eth].
      currency a \<noteq> currency b \<longrightarrow> weighted_compare (currency a) (currency b) \<noteq> 0"
    by (simp add: be eb)
  from processTokenData_ascending [OF consistent_weighted_compare, of ?data]
  have "sorted_wrt (\<lambda>a b. weighted_compare (currency a) (currency b) < 0) [?btc, ?eth]"
    unfolding e using apart by blast
  with e consistent_weighted_compare show ?thesis by simp
qed

text \<open>
  The claim as stated, with a strict order and no ties, fails on a feed with the
  currencies \<open>ETH\<close> and \<open>ETH\<close> followed by the control character \<open>U+0001\<close>: they are two
  keys of the map, the comparison gives the control character no weight, as the
  collation of the host does, and the two tokens of the catalog tie.
\<close>

theorem processTokenData_tie:
  "processTokenData weighted_compare
      [\<lparr>currency = [CHR ''E'', CHR ''T'', CHR ''H'', CHR 0x01], price = Fin 1\<rparr>,
       \<lparr>currency = ''ETH'', price = Fin 2\<rparr>]
     = [\<lparr>currency = [CHR ''E'', CHR ''T'', CHR ''H'', CHR 0x01], price = Fin 1,
         icon = icon_url [CHR ''E'', CHR ''T'', CHR ''H'', CHR 0x01]\<rparr>,
        \<lparr>currency = ''ETH'', price = Fin 2, icon = icon_url ''ETH''\<rparr>]
   \<and> weighted_compare [CHR ''E'', CHR ''T'', CHR ''H'', CHR 0x01] ''ETH'' = 0
   \<and> \<not> sorted_wrt (\<lambda>a b. weighted_compare (currency a) (currency b) < 0)
        (processTokenData weighted_compare
          [\<lparr>currency = [CHR ''E'', CHR ''T'', CHR ''H'', CHR 0x01], price = Fin 1\<rparr>,
           \<lparr>currency = ''ETH'', price = Fin 2\<rparr>])"
proof -
  have t: "weighted_compare [CHR ''E'', CHR ''T'', CHR ''H'', CHR 0x01] ''ETH'' = 0"
    by (simp add: weighted_compare_def ignorable_def)
  have e: "processTokenData weighted_compare
      [\<lparr>currency = [CHR ''E'', CHR ''T'', CHR ''H'', CHR 0x01], price = Fin 1\<rparr>,
       \<lparr>currency = ''ETH'', price = Fin 2\<rparr>]
     = [\<lparr>currency = [CHR ''E'', CHR ''T'', CHR ''H'', CHR 0x01], price = Fin 1,
         icon = icon_url [CHR ''E'', CHR ''T'', CHR ''H'', CHR 0x01]\<rparr>,
        \<lparr>currency = ''ETH'', price = Fin 2, icon = icon_url ''ETH''\<rparr>]"
    by (simp add: processTokenData_def add_token_def Array_sort_def Map_values_def truthy_def
        js_gt_def t)
  show ?thesis
    unfolding e using t by simp
qed

section \<open>The swap form\<close>

subsection \<open>Numbers read and printed\<close>

lemma fl_neg: "fl (- r) = js_neg (fl r)"
  by (simp add: fl_def Let_def)

lemma fl_int_numeral: "numeral k \<le> (2::int) ^ 53 \<Longrightarrow> fl (numeral k) = Fin (numeral k)"
  using fl_safe_int [of "numeral k"] by simp

lemma fl_one: "fl 1 = Fin 1"
  using fl_safe_int [of 1] by simp

lemmas parse_defs = parseFloat_def StrDecimalLiteral_def StrUnsignedDecimalLiteral_def
  ExponentPart_def is_digit_def is_space_def digits_val_def digit_val_def Number_def trim_def
  radix_literal_def

lemma parseFloat_empty: "parseFloat '''' = NaN"
  by (simp add: parse_defs)




lemma parseFloat_10: "parseFloat ''10'' = Fin 10"
  by (simp add: parse_defs fl_int_numeral)

lemma parseFloat_11: "parseFloat ''11'' = Fin 11"
  by (simp add: parse_defs fl_int_numeral)

lemma Number_12: "Number ''12'' = Fin 12"
  by (simp add: parse_defs fl_int_numeral)

lemma Number_minus_1: "Number ''-1'' = Fin (- 1)"
  by (simp add: parse_defs fl_one)

lemma Number_abc: "Number ''abc'' = NaN"
  by (simp add: parse_defs)


subsection \<open>Printing and reading back\<close>


lemma dec_digits_small: "n < 10 \<Longrightarrow> dec_digits n = [''0123456789'' ! nat n]"
  by (subst dec_digits.simps) simp

lemma dec_digits_large:
  "\<not> n < 10 \<Longrightarrow> dec_digits n = dec_digits (n div 10) @ [''0123456789'' ! nat (n mod 10)]"
  by (subst dec_digits.simps) simp

lemma dec_digits_nonempty: "dec_digits n \<noteq> []"
  by (cases "n < 10") (simp_all add: dec_digits_small dec_digits_large)
















subsection \<open>The effect: balance and quote\<close>

lemma insufficient_nonempty: "insufficient f \<noteq> ''''"
  by (simp add: insufficient_def)

lemma recompute_error:
  "error (recompute_with b s) =
     (case fromToken s of
        Some f \<Rightarrow> if js_gt (parseFloat (fromAmount s)) b then insufficient f else ''''
      | None \<Rightarrow> '''')"
  by (simp add: recompute_with_def Let_def split: option.splits)

lemma recompute_toAmount:
  "toAmount (recompute_with b s) =
     (case (fromToken s, toToken s) of
        (Some f, Some t) \<Rightarrow>
          if js_gt (parseFloat (fromAmount s)) (Fin 0) \<and> truthy (price f) \<and> truthy (price t)
          then toFixed6 (js_mul (parseFloat (fromAmount s)) (js_div (price f) (price t)))
          else ''''
      | _ \<Rightarrow> '''')"
  by (simp add: recompute_with_def Let_def split: option.splits)

lemma recompute_keeps:
  "fromToken (recompute_with b s) = fromToken s"
  "toToken (recompute_with b s) = toToken s"
  "fromAmount (recompute_with b s) = fromAmount s"
  "isSwapping (recompute_with b s) = isSwapping s"
  by (simp_all add: recompute_with_def Let_def split: option.splits)

lemma recompute_keeps':
  "fromToken (recompute s) = fromToken s"
  "toToken (recompute s) = toToken s"
  "fromAmount (recompute s) = fromAmount s"
  "isSwapping (recompute s) = isSwapping s"
  by (simp_all add: recompute_def recompute_keeps)

text \<open>
  Claim C5. With a from-token selected, for every entered amount and every balance
  \<open>b\<close>, the effect sets the insufficient-balance error exactly when the parsed amount is
  greater than \<open>b\<close>, and leaves the error cleared otherwise; the error text is never
  the empty text of the cleared state.
\<close>

theorem recompute_insufficient_balance:
  assumes "fromToken s = Some f"
  shows "(js_gt (parseFloat (fromAmount s)) b \<longrightarrow> error (recompute_with b s) = insufficient f)
       \<and> (\<not> js_gt (parseFloat (fromAmount s)) b \<longrightarrow> error (recompute_with b s) = '''')
       \<and> insufficient f \<noteq> ''''"
  using assms by (simp add: recompute_error insufficient_nonempty)

text \<open>The theorem at the balance 10: the amount \<open>10\<close> raises no error, \<open>11\<close> does.\<close>

theorem recompute_insufficient_balance_witness:
  "error (recompute_with MOCK_BALANCE
      (initial\<lparr>fromToken := Some \<lparr>currency = ''ETH'', price = Fin 2000, icon = icon_url ''ETH''\<rparr>,
              fromAmount := ''10''\<rparr>)) = ''''
   \<and> error (recompute_with MOCK_BALANCE
      (initial\<lparr>fromToken := Some \<lparr>currency = ''ETH'', price = Fin 2000, icon = icon_url ''ETH''\<rparr>,
              fromAmount := ''11''\<rparr>)) = ''Insufficient ETH balance''"
  using recompute_insufficient_balance
      [of "initial\<lparr>fromToken := Some \<lparr>currency = ''ETH'', price = Fin 2000, icon = icon_url ''ETH''\<rparr>,
              fromAmount := ''10''\<rparr>"
          "\<lparr>currency = ''ETH'', price = Fin 2000, icon = icon_url ''ETH''\<rparr>" MOCK_BALANCE]
    recompute_insufficient_balance
      [of "initial\<lparr>fromToken := Some \<lparr>currency = ''ETH'', price = Fin 2000, icon = icon_url ''ETH''\<rparr>,
              fromAmount := ''11''\<rparr>"
          "\<lparr>currency = ''ETH'', price = Fin 2000, icon = icon_url ''ETH''\<rparr>" MOCK_BALANCE]
  by (simp add: initial_def parseFloat_10 parseFloat_11 MOCK_BALANCE_def js_gt_def insufficient_def)

text \<open>
  Claim C9. With no from-token selected the effect leaves the error cleared, whatever
  the entered amount and the balance.
\<close>

theorem recompute_no_token_no_error:
  assumes "fromToken s = None"
  shows "error (recompute_with b s) = ''''"
  using assms by (simp add: recompute_error)

text \<open>The theorem on the amount \<open>11\<close>, above the balance.\<close>

theorem recompute_no_token_no_error_witness:
  "js_gt (parseFloat ''11'') MOCK_BALANCE
   \<and> error (recompute_with MOCK_BALANCE (initial\<lparr>fromAmount := ''11''\<rparr>)) = ''''"
  using recompute_no_token_no_error [of "initial\<lparr>fromAmount := ''11''\<rparr>" MOCK_BALANCE]
  by (simp add: initial_def parseFloat_11 MOCK_BALANCE_def js_gt_def)





subsection \<open>Steps\<close>

lemma step_fromAmount: "fromAmount (step lc s e) = fromAmount (handle lc s e)"
  by (simp add: step_def Let_def recompute_keeps')

lemma step_fromToken: "fromToken (step lc s e) = fromToken (handle lc s e)"
  by (simp add: step_def Let_def recompute_keeps')

lemma step_toToken: "toToken (step lc s e) = toToken (handle lc s e)"
  by (simp add: step_def Let_def recompute_keeps')

lemma step_isSwapping: "isSwapping (step lc s e) = isSwapping (handle lc s e)"
  by (simp add: step_def Let_def recompute_keeps')

lemma step_unchanged: "handle lc s e = s \<Longrightarrow> step lc s e = s"
  by (simp add: step_def)

subsection \<open>The prices of the form\<close>

text \<open>
  In every run of the page the tokens of the catalog and the selected tokens have
  prices greater than 0: the catalog keeps no other, and a selected token is a default
  found in the catalog or a token that a selector has offered.
\<close>

lemma positive_price_find: "positive_price (List.find P (processTokenData lc data))"
proof (cases "List.find P (processTokenData lc data)")
  case None
  then show ?thesis by (simp add: positive_price_def)
next
  case (Some t)
  then have "t \<in> set (processTokenData lc data)"
    by (auto simp: find_Some_iff)
  then have "js_gt (price t) (Fin 0)"
    by (rule processTokenData_positive)
  with Some show ?thesis by (simp add: positive_price_def)
qed

lemma positive_prices_cong:
  assumes "tokens s' = tokens s" and "fromToken s' = fromToken s" and "toToken s' = toToken s"
  shows "positive_prices s' = positive_prices s"
  using assms by (simp add: positive_prices_def)

lemma positive_prices_fetch: "positive_prices (fetchPrices_resolved lc data s)"
proof -
  have "list_all (\<lambda>t. js_gt (price t) (Fin 0)) (processTokenData lc data)"
    by (simp add: list_all_iff processTokenData_positive)
  then show ?thesis
    by (simp add: positive_prices_def fetchPrices_resolved_def Let_def positive_price_find)
qed

lemma positive_prices_select_from:
  assumes "positive_prices s" and "t \<in> set (tokens s)"
  shows "positive_prices (handleSelectFromToken t s)"
proof -
  have "js_gt (price t) (Fin 0)"
    using assms by (simp add: positive_prices_def list_all_iff)
  then have "positive_price (Some t)" by (simp add: positive_price_def)
  with assms(1) show ?thesis
    by (cases "toToken s") (simp_all add: positive_prices_def handleSelectFromToken_def)
qed

lemma positive_prices_select_to:
  assumes "positive_prices s" and "t \<in> set (tokens s)"
  shows "positive_prices (handleSelectToToken t s)"
proof -
  have "js_gt (price t) (Fin 0)"
    using assms by (simp add: positive_prices_def list_all_iff)
  then have "positive_price (Some t)" by (simp add: positive_price_def)
  with assms(1) show ?thesis
    by (cases "fromToken s") (simp_all add: positive_prices_def handleSelectToToken_def)
qed

lemma positive_prices_handle:
  assumes "positive_prices s" and "offered s e"
  shows "positive_prices (handle lc s e)"
proof (cases e)
  case (FetchResolved data)
  then show ?thesis by (simp add: handle_def positive_prices_fetch)
next
  case FetchFailed
  have "positive_prices (fetchPrices_failed s) = positive_prices s"
    by (rule positive_prices_cong) (simp_all add: fetchPrices_failed_def)
  with assms FetchFailed show ?thesis by (simp add: handle_def)
next
  case (ChangeFromAmount v)
  have "positive_prices (handleFromAmountChange v s) = positive_prices s"
    by (rule positive_prices_cong) (simp_all add: handleFromAmountChange_def)
  with assms ChangeFromAmount show ?thesis by (simp add: handle_def)
next
  case (SelectFromToken t)
  with assms show ?thesis by (simp add: handle_def positive_prices_select_from)
next
  case (SelectToToken t)
  with assms show ?thesis by (simp add: handle_def positive_prices_select_to)
next
  case FlipSides
  with assms show ?thesis
    by (simp add: handle_def handleSwapTokens_def positive_prices_def)
next
  case TriggerSwap
  have "positive_prices (handleSwapClick s) = positive_prices s"
    by (rule positive_prices_cong) (simp_all add: handleSwapClick_def)
  with assms TriggerSwap show ?thesis by (simp add: handle_def)
next
  case Settle
  have "positive_prices (swap_timeout s) = positive_prices s"
    by (rule positive_prices_cong) (simp_all add: swap_timeout_def)
  with assms Settle show ?thesis by (simp add: handle_def)
next
  case OpenFromModal
  have "positive_prices (s\<lparr>isFromModalOpen := True\<rparr>) = positive_prices s"
    by (rule positive_prices_cong) simp_all
  with assms OpenFromModal show ?thesis by (simp add: handle_def)
next
  case OpenToModal
  have "positive_prices (s\<lparr>isToModalOpen := True\<rparr>) = positive_prices s"
    by (rule positive_prices_cong) simp_all
  with assms OpenToModal show ?thesis by (simp add: handle_def)
next
  case CloseFromModal
  have "positive_prices (s\<lparr>isFromModalOpen := False\<rparr>) = positive_prices s"
    by (rule positive_prices_cong) simp_all
  with assms CloseFromModal show ?thesis by (simp add: handle_def)
next
  case CloseToModal
  have "positive_prices (s\<lparr>isToModalOpen := False\<rparr>) = positive_prices s"
    by (rule positive_prices_cong) simp_all
  with assms CloseToModal show ?thesis by (simp add: handle_def)
next
  case (SetSearchTerm v)
  have "positive_prices (s\<lparr>searchTerm := v\<rparr>) = positive_prices s"
    by (rule positive_prices_cong) simp_all
  with assms SetSearchTerm show ?thesis by (simp add: handle_def)
qed

lemma recompute_tokens: "tokens (recompute s) = tokens s"
  by (simp add: recompute_def recompute_with_def Let_def split: option.splits)

lemma positive_prices_step:
  assumes "positive_prices s" and "offered s e"
  shows "positive_prices (step lc s e)"
proof -
  have "positive_prices (recompute (handle lc s e)) = positive_prices (handle lc s e)"
    by (rule positive_prices_cong) (simp_all add: recompute_tokens recompute_keeps')
  with positive_prices_handle [OF assms, of lc] show ?thesis
    by (simp add: step_def Let_def)
qed

lemma positive_prices_foldl:
  assumes "positive_prices s" and "page_events lc s es"
  shows "positive_prices (foldl (step lc) s es)"
  using assms
proof (induction es arbitrary: s)
  case Nil
  then show ?case by simp
next
  case (Cons e es)
  from Cons.prems have "positive_prices (step lc s e)"
    by (intro positive_prices_step) simp_all
  moreover from Cons.prems have "page_events lc (step lc s e) es"
    by simp
  ultimately show ?case
    unfolding foldl_Cons by (rule Cons.IH)
qed

lemma page_prices_positive:
  assumes "page_events lc initial es"
  shows "positive_prices (run lc es)"
proof -
  have "positive_prices initial"
    by (simp add: positive_prices_def positive_price_def initial_def)
  then show ?thesis
    unfolding run_def using assms by (rule positive_prices_foldl)
qed

lemma positive_no_negative: "positive_price x \<Longrightarrow> no_negative_price x"
proof (cases x)
  case None
  then show ?thesis by (simp add: no_negative_price_def)
next
  case (Some t)
  assume "positive_price x"
  with Some have "js_gt (price t) (Fin 0)" by (simp add: positive_price_def)
  then have "\<not> js_lt (price t) (Fin 0)"
    by (cases "price t") (simp_all add: js_gt_def)
  with Some show ?thesis by (simp add: no_negative_price_def)
qed

lemma page_no_negative_price:
  assumes "page_events lc initial es"
  shows "no_negative_price (fromToken (run lc es))" and "no_negative_price (toToken (run lc es))"
  using page_prices_positive [OF assms]
  by (simp_all add: positive_prices_def positive_no_negative)

subsection \<open>The amount\<close>

lemma accept_iff_nonnegative: "(js_ge x (Fin 0) \<and> \<not> isNaN x) = nonnegative x"
  by (cases x) (auto simp: js_ge_def js_le_def isNaN_def nonnegative_def)

lemma handleFromAmountChange_cases:
  "handleFromAmountChange v s = (if v = '''' \<or> nonnegative (Number v) then s\<lparr>fromAmount := v\<rparr> else s)"
  by (simp add: handleFromAmountChange_def accept_iff_nonnegative)

lemma Number_Infinity: "Number ''Infinity'' = PInf"
  by (simp add: parse_defs)

lemma Number_nbsp_5: "Number [CHR 0xA0, CHR ''5''] = Fin 5"
  by (simp add: parse_defs fl_int_numeral)

text \<open>
  Claim C6, as amended. When the text is empty or \<open>Number\<close> reads it as a number that is
  not negative, a finite value from 0 on or \<open>+Infinity\<close>, \<open>handleFromAmountChange\<close> stores
  exactly the text in \<open>fromAmount\<close>, and it is still there after the effect has run; for
  every other text the handler, and with it the whole step, leaves the state unchanged.
\<close>

theorem change_from_amount:
  "(v = '''' \<or> nonnegative (Number v) \<longrightarrow>
      handleFromAmountChange v s = s\<lparr>fromAmount := v\<rparr>
      \<and> fromAmount (step lc s (ChangeFromAmount v)) = v)
   \<and> (v \<noteq> '''' \<and> \<not> nonnegative (Number v) \<longrightarrow>
      handleFromAmountChange v s = s \<and> step lc s (ChangeFromAmount v) = s)"
proof (intro conjI impI)
  assume a: "v = '''' \<or> nonnegative (Number v)"
  then show h: "handleFromAmountChange v s = s\<lparr>fromAmount := v\<rparr>"
    by (simp add: handleFromAmountChange_cases)
  show "fromAmount (step lc s (ChangeFromAmount v)) = v"
    by (simp add: step_fromAmount handle_def h)
next
  assume r: "v \<noteq> '''' \<and> \<not> nonnegative (Number v)"
  then show h: "handleFromAmountChange v s = s"
    by (simp add: handleFromAmountChange_cases)
  show "step lc s (ChangeFromAmount v) = s"
    by (rule step_unchanged) (simp add: handle_def h)
qed

text \<open>
  The theorem on the texts \<open>12\<close>, \<open>5\<close> after a no-break space, \<open>-1\<close> and \<open>abc\<close>.
\<close>

theorem change_from_amount_witness:
  "fromAmount (step code_compare initial (ChangeFromAmount ''12'')) = ''12''
   \<and> fromAmount (step code_compare initial (ChangeFromAmount [CHR 0xA0, CHR ''5'']))
       = [CHR 0xA0, CHR ''5'']
   \<and> step code_compare (initial\<lparr>fromAmount := ''12''\<rparr>) (ChangeFromAmount ''-1'')
       = initial\<lparr>fromAmount := ''12''\<rparr>
   \<and> step code_compare (initial\<lparr>fromAmount := ''12''\<rparr>) (ChangeFromAmount ''abc'')
       = initial\<lparr>fromAmount := ''12''\<rparr>"
  using change_from_amount [of "''12''" initial code_compare]
    change_from_amount [of "[CHR 0xA0, CHR ''5'']" initial code_compare]
    change_from_amount [of "''-1''" "initial\<lparr>fromAmount := ''12''\<rparr>" code_compare]
    change_from_amount [of "''abc''" "initial\<lparr>fromAmount := ''12''\<rparr>" code_compare]
  by (simp add: Number_12 Number_nbsp_5 Number_minus_1 Number_abc nonnegative_def)

text \<open>
  The claim as stated, which accepts a text that parses to a non-negative real number
  and no other but the empty one, fails on the text \<open>Infinity\<close>: \<open>Number\<close> reads it as
  \<open>+Infinity\<close>, which passes the test \<open>>= 0\<close> of the handler, and the text is stored.
\<close>

theorem change_from_amount_infinity:
  "Number ''Infinity'' = PInf
   \<and> fromAmount (run code_compare [FetchResolved []]) = ''''
   \<and> fromAmount (run code_compare [FetchResolved [], ChangeFromAmount ''Infinity'']) = ''Infinity''"
proof -
  have "fromAmount (run code_compare [FetchResolved []]) = ''''"
    by (simp add: run_def step_fromAmount handle_def fetchPrices_resolved_def Let_def initial_def)
  moreover have "fromAmount (run code_compare [FetchResolved [], ChangeFromAmount ''Infinity''])
      = ''Infinity''"
    by (simp add: run_def step_fromAmount handle_def handleFromAmountChange_cases Number_Infinity
        nonnegative_def)
  ultimately show ?thesis
    by (simp add: Number_Infinity)
qed

subsection \<open>The swap button\<close>

text \<open>
  The button and the timer on an amount that is empty or parses to a number. A click
  is ignored, the state unchanged, when \<open>fromAmount\<close> is empty or parses to a number that
  is at most 0, when an error is set, or while swapping. When \<open>fromAmount\<close> parses to a
  number greater than 0, no error is set and no swap is under way, the click sets
  \<open>isSwapping\<close> and changes nothing else, and the timer that follows clears both amounts
  and \<open>isSwapping\<close>.
\<close>

lemma swap_click_guarded:
  "(fromAmount s = '''' \<or> js_le (parseFloat (fromAmount s)) (Fin 0) \<or> error s \<noteq> '''' \<or> isSwapping s
      \<longrightarrow> step lc s TriggerSwap = s)
   \<and> (js_gt (parseFloat (fromAmount s)) (Fin 0) \<and> error s = '''' \<and> \<not> isSwapping s
      \<longrightarrow> step lc s TriggerSwap = s\<lparr>isSwapping := True\<rparr>
        \<and> fromAmount (step lc (step lc s TriggerSwap) Settle) = ''''
        \<and> toAmount (step lc (step lc s TriggerSwap) Settle) = ''''
        \<and> \<not> isSwapping (step lc (step lc s TriggerSwap) Settle))"
proof (intro conjI impI)
  assume "fromAmount s = '''' \<or> js_le (parseFloat (fromAmount s)) (Fin 0) \<or> error s \<noteq> '''' \<or> isSwapping s"
  then have "isButtonDisabled s" by (simp add: isButtonDisabled_def)
  then show "step lc s TriggerSwap = s"
    by (intro step_unchanged) (simp add: handle_def)
next
  assume a: "js_gt (parseFloat (fromAmount s)) (Fin 0) \<and> error s = '''' \<and> \<not> isSwapping s"
  then have ne: "fromAmount s \<noteq> ''''"
    using parseFloat_empty by (auto simp: js_gt_def)
  have "\<not> js_le (parseFloat (fromAmount s)) (Fin 0)"
    using a by (simp add: js_le_def js_gt_def)
  with a ne have en: "\<not> isButtonDisabled s" by (simp add: isButtonDisabled_def)
  then have h: "handle lc s TriggerSwap = s\<lparr>isSwapping := True\<rparr>"
    by (simp add: handle_def handleSwapClick_def)
  then show t: "step lc s TriggerSwap = s\<lparr>isSwapping := True\<rparr>"
    by (simp add: step_def deps_def)
  have hs: "handle lc (s\<lparr>isSwapping := True\<rparr>) Settle
      = s\<lparr>isSwapping := False, fromAmount := '''', toAmount := ''''\<rparr>"
    by (simp add: handle_def swap_timeout_def)
  have st: "step lc (s\<lparr>isSwapping := True\<rparr>) Settle
      = recompute (s\<lparr>isSwapping := False, fromAmount := '''', toAmount := ''''\<rparr>)"
    using ne by (simp add: step_def hs deps_def)
  show "fromAmount (step lc (step lc s TriggerSwap) Settle) = ''''"
    by (simp add: t st recompute_keeps')
  show "toAmount (step lc (step lc s TriggerSwap) Settle) = ''''"
    by (simp add: t st recompute_def recompute_toAmount parseFloat_empty js_gt_def split: option.splits)
  show "\<not> isSwapping (step lc (step lc s TriggerSwap) Settle)"
    by (simp add: t st recompute_keeps')
qed


subsection \<open>The selected tokens\<close>

lemma no_duplicate_cong:
  "fromToken s' = fromToken s \<Longrightarrow> toToken s' = toToken s \<Longrightarrow> no_duplicate s' = no_duplicate s"
  by (simp add: no_duplicate_def)

lemma no_duplicate_recompute: "no_duplicate (recompute s) = no_duplicate s"
  by (rule no_duplicate_cong) (simp_all add: recompute_keeps')

lemma no_duplicate_fetch: "no_duplicate (fetchPrices_resolved lc data s)"
proof -
  let ?ts = "processTokenData lc data"
  have "currency f \<noteq> currency t"
    if "List.find (\<lambda>token. currency token = ''ETH'') ?ts = Some f"
      and "List.find (\<lambda>token. currency token = ''USDC'') ?ts = Some t" for f t
  proof -
    from that have "currency f = ''ETH''" and "currency t = ''USDC''"
      by (auto simp: find_Some_iff)
    then show ?thesis by simp
  qed
  then show ?thesis
    by (simp add: no_duplicate_def fetchPrices_resolved_def Let_def split: option.splits)
qed

lemma no_duplicate_select_from:
  assumes "no_duplicate s"
  shows "no_duplicate (handleSelectFromToken t s)"
  using assms
  by (cases "fromToken s"; cases "toToken s")
    (auto simp: no_duplicate_def handleSelectFromToken_def)

lemma no_duplicate_select_to:
  assumes "no_duplicate s"
  shows "no_duplicate (handleSelectToToken t s)"
  using assms
  by (cases "fromToken s"; cases "toToken s")
    (auto simp: no_duplicate_def handleSelectToToken_def)

lemma no_duplicate_flip:
  assumes "no_duplicate s"
  shows "no_duplicate (handleSwapTokens s)"
  using assms
  by (cases "fromToken s"; cases "toToken s")
    (auto simp: no_duplicate_def handleSwapTokens_def)

lemma no_duplicate_handle:
  assumes "no_duplicate s"
  shows "no_duplicate (handle lc s e)"
proof (cases e)
  case (FetchResolved data)
  then show ?thesis by (simp add: handle_def no_duplicate_fetch)
next
  case FetchFailed
  have "no_duplicate (fetchPrices_failed s) = no_duplicate s"
    by (rule no_duplicate_cong) (simp_all add: fetchPrices_failed_def)
  with assms FetchFailed show ?thesis by (simp add: handle_def)
next
  case (ChangeFromAmount v)
  have "no_duplicate (handleFromAmountChange v s) = no_duplicate s"
    by (rule no_duplicate_cong) (simp_all add: handleFromAmountChange_def)
  with assms ChangeFromAmount show ?thesis by (simp add: handle_def)
next
  case (SelectFromToken t)
  with assms show ?thesis by (simp add: handle_def no_duplicate_select_from)
next
  case (SelectToToken t)
  with assms show ?thesis by (simp add: handle_def no_duplicate_select_to)
next
  case FlipSides
  with assms show ?thesis by (simp add: handle_def no_duplicate_flip)
next
  case TriggerSwap
  have "no_duplicate (handleSwapClick s) = no_duplicate s"
    by (rule no_duplicate_cong) (simp_all add: handleSwapClick_def)
  with assms TriggerSwap show ?thesis by (simp add: handle_def)
next
  case Settle
  have "no_duplicate (swap_timeout s) = no_duplicate s"
    by (rule no_duplicate_cong) (simp_all add: swap_timeout_def)
  with assms Settle show ?thesis by (simp add: handle_def)
next
  case OpenFromModal
  have "no_duplicate (s\<lparr>isFromModalOpen := True\<rparr>) = no_duplicate s"
    by (rule no_duplicate_cong) simp_all
  with assms OpenFromModal show ?thesis by (simp add: handle_def)
next
  case OpenToModal
  have "no_duplicate (s\<lparr>isToModalOpen := True\<rparr>) = no_duplicate s"
    by (rule no_duplicate_cong) simp_all
  with assms OpenToModal show ?thesis by (simp add: handle_def)
next
  case CloseFromModal
  have "no_duplicate (s\<lparr>isFromModalOpen := False\<rparr>) = no_duplicate s"
    by (rule no_duplicate_cong) simp_all
  with assms CloseFromModal show ?thesis by (simp add: handle_def)
next
  case CloseToModal
  have "no_duplicate (s\<lparr>isToModalOpen := False\<rparr>) = no_duplicate s"
    by (rule no_duplicate_cong) simp_all
  with assms CloseToModal show ?thesis by (simp add: handle_def)
next
  case (SetSearchTerm v)
  have "no_duplicate (s\<lparr>searchTerm := v\<rparr>) = no_duplicate s"
    by (rule no_duplicate_cong) simp_all
  with assms SetSearchTerm show ?thesis by (simp add: handle_def)
qed

lemma no_duplicate_step: "no_duplicate s \<Longrightarrow> no_duplicate (step lc s e)"
  by (simp add: step_def Let_def no_duplicate_recompute no_duplicate_handle)

lemma no_duplicate_initial: "no_duplicate initial"
  by (simp add: no_duplicate_def initial_def)

lemma no_duplicate_foldl: "no_duplicate s \<Longrightarrow> no_duplicate (foldl (step lc) s es)"
  by (induction es arbitrary: s) (simp_all add: no_duplicate_step)

text \<open>
  Claim C2. After every sequence of events from the initial state the two selected
  tokens, when both are set, differ in their currency. Selecting as to-token a token of
  the currency that the from-token holds moves the previous to-token to the from side;
  and the same with the sides exchanged.
\<close>

theorem tokens_never_duplicated:
  "no_duplicate (run lc es)
   \<and> (fromToken s = Some f \<and> currency t = currency f \<longrightarrow>
        fromToken (step lc s (SelectToToken t)) = toToken s
        \<and> toToken (step lc s (SelectToToken t)) = Some t)
   \<and> (toToken s = Some f \<and> currency t = currency f \<longrightarrow>
        toToken (step lc s (SelectFromToken t)) = fromToken s
        \<and> fromToken (step lc s (SelectFromToken t)) = Some t)"
proof (intro conjI impI)
  show "no_duplicate (run lc es)"
    unfolding run_def using no_duplicate_initial by (rule no_duplicate_foldl)
next
  assume "fromToken s = Some f \<and> currency t = currency f"
  then show "fromToken (step lc s (SelectToToken t)) = toToken s"
    and "toToken (step lc s (SelectToToken t)) = Some t"
    by (simp_all add: step_fromToken step_toToken handle_def handleSelectToToken_def)
next
  assume "toToken s = Some f \<and> currency t = currency f"
  then show "toToken (step lc s (SelectFromToken t)) = fromToken s"
    and "fromToken (step lc s (SelectFromToken t)) = Some t"
    by (simp_all add: step_fromToken step_toToken handle_def handleSelectFromToken_def)
qed

text \<open>The theorem on the default pair ETH and USDC, selecting ETH as to-token.\<close>

theorem tokens_never_duplicated_witness:
  "fromToken (run code_compare
      [FetchResolved [\<lparr>currency = ''ETH'', price = Fin 2000\<rparr>, \<lparr>currency = ''USDC'', price = Fin 1\<rparr>]])
     = Some \<lparr>currency = ''ETH'', price = Fin 2000, icon = icon_url ''ETH''\<rparr>
   \<and> toToken (run code_compare
      [FetchResolved [\<lparr>currency = ''ETH'', price = Fin 2000\<rparr>, \<lparr>currency = ''USDC'', price = Fin 1\<rparr>]])
     = Some \<lparr>currency = ''USDC'', price = Fin 1, icon = icon_url ''USDC''\<rparr>
   \<and> fromToken (run code_compare
      [FetchResolved [\<lparr>currency = ''ETH'', price = Fin 2000\<rparr>, \<lparr>currency = ''USDC'', price = Fin 1\<rparr>],
       SelectToToken \<lparr>currency = ''ETH'', price = Fin 2000, icon = icon_url ''ETH''\<rparr>])
     = Some \<lparr>currency = ''USDC'', price = Fin 1, icon = icon_url ''USDC''\<rparr>
   \<and> toToken (run code_compare
      [FetchResolved [\<lparr>currency = ''ETH'', price = Fin 2000\<rparr>, \<lparr>currency = ''USDC'', price = Fin 1\<rparr>],
       SelectToToken \<lparr>currency = ''ETH'', price = Fin 2000, icon = icon_url ''ETH''\<rparr>])
     = Some \<lparr>currency = ''ETH'', price = Fin 2000, icon = icon_url ''ETH''\<rparr>
   \<and> no_duplicate (run code_compare
      [FetchResolved [\<lparr>currency = ''ETH'', price = Fin 2000\<rparr>, \<lparr>currency = ''USDC'', price = Fin 1\<rparr>],
       SelectToToken \<lparr>currency = ''ETH'', price = Fin 2000, icon = icon_url ''ETH''\<rparr>])"
proof -
  let ?data = "[\<lparr>currency = ''ETH'', price = Fin 2000\<rparr>, \<lparr>currency = ''USDC'', price = Fin 1\<rparr>]"
  let ?eth = "\<lparr>currency = ''ETH'', price = Fin 2000, icon = icon_url ''ETH''\<rparr>"
  let ?usdc = "\<lparr>currency = ''USDC'', price = Fin 1, icon = icon_url ''USDC''\<rparr>"
  let ?s = "run code_compare [FetchResolved ?data]"
  have p: "processTokenData code_compare ?data = [?eth, ?usdc]"
    by (simp add: processTokenData_def add_token_def Array_sort_def Map_values_def truthy_def
        js_gt_def)
  have f: "fromToken ?s = Some ?eth" and t: "toToken ?s = Some ?usdc"
    by (simp_all add: run_def step_fromToken step_toToken handle_def fetchPrices_resolved_def p)
  have r: "run code_compare [FetchResolved ?data, SelectToToken ?eth] = step code_compare ?s (SelectToToken ?eth)"
    by (simp add: run_def)
  from tokens_never_duplicated [of code_compare "[FetchResolved ?data, SelectToToken ?eth]" ?s ?eth ?eth] f
  have "no_duplicate (run code_compare [FetchResolved ?data, SelectToToken ?eth])
      \<and> fromToken (step code_compare ?s (SelectToToken ?eth)) = toToken ?s
      \<and> toToken (step code_compare ?s (SelectToToken ?eth)) = Some ?eth"
    by simp
  with f t show ?thesis
    unfolding r by simp
qed

end
